theory Spec2Isabelle
  imports Complex_Main "HOL-Library.Sublist"
begin

section \<open>Cancellable audio playout: the data model\<close>

text \<open>
  The development follows \<^verbatim>\<open>livekit/agents/voice_assistant/cancellable_source.py\<close>.

  Conventions of the embedding.
  \<^item> A Python float is the real number it stands for. The float operations of the
    task (the two divisions and the two multiplications of integers and floats) round
    their exact result to the nearest double, ties to even (\<open>to_double\<close>, with an
    unbounded exponent: no infinities and no subnormal numbers).
    \<^verbatim>\<open>int(x)\<close> is truncation towards zero.
  \<^item> \<^verbatim>\<open>frame.data\<close> is the frame's 16-bit sample buffer seen as a \<^verbatim>\<open>memoryview\<close>
    (the code calls \<^verbatim>\<open>len\<close>, slices it, assigns items and calls \<^verbatim>\<open>tobytes()\<close> on
    the slice). A slice of a memoryview is a view of the same memory, so an item
    assignment through the slice is a write to the frame's own buffer; storing a value
    outside the signed 16-bit range raises \<^verbatim>\<open>ValueError\<close>. Frames live in a store
    indexed by object identity; \<^verbatim>\<open>tobytes()\<close> takes a copy, so the frames handed
    to the sink are values.
  \<^item> The playout task is a coroutine. Each \<^verbatim>\<open>await\<close> is a point where the rest of
    the program runs; what it did there (calls of \<^verbatim>\<open>interrupt()\<close>, assignments to
    \<^verbatim>\<open>target_volume\<close>) and how the await ended (a value, an exception, a
    cancellation) is given to the model as a script, one entry per await.
  \<^item> \<^verbatim>\<open>emit\<close> is recorded in the task's trace; listeners are outside the model.
\<close>

datatype error =
    CancelledError
  | SourceFailure
  | SinkFailure
  | ZeroDivisionError
  | ValueError
  | InvalidStateError
  | OldTaskFailure

datatype event = playout_started | playout_stopped bool

record audio_frame =
  data :: "int list"
  sample_rate :: nat
  num_channels :: nat
  samples_per_channel :: nat

text \<open>
  What the rest of the program may do to the handle and the source while the task is
  suspended: call \<^verbatim>\<open>interrupt()\<close>, assign \<^verbatim>\<open>target_volume\<close>, or cancel a task that
  awaits the handle. \<^verbatim>\<open>__await__\<close> hands \<^verbatim>\<open>_done_fut\<close> itself to the awaiter, so the
  cancellation of an awaiter cancels the future: it is done from then on.
\<close>

datatype act = Interrupt | Set_target_volume real | Cancel_awaiter

datatype pull_outcome = Yield nat | Pull_raises error

datatype sink_outcome = Accepted | Sink_raises error

datatype await_outcome = Returned | Raised error

datatype action =
    Cancel_old
  | Await_old
  | Pull
  | Emit event
  | Capture audio_frame
  | Set_result

text \<open>
  The filter class \<^verbatim>\<open>utils.ExpFilter\<close> is not part of the file; the task uses its two
  methods only, which are parameters of the model: \<open>fapply dt target f\<close> returns the
  value handed back by \<^verbatim>\<open>apply\<close> and the filter after the call, \<open>ffiltered f\<close> is
  \<^verbatim>\<open>filtered()\<close>.
\<close>

record 'f filter_ops =
  fapply :: "real \<Rightarrow> real \<Rightarrow> 'f \<Rightarrow> real \<times> 'f"
  ffiltered :: "'f \<Rightarrow> real"

text \<open>
  The state a playout task works on: the fields of the source it reads and writes
  (\<^verbatim>\<open>_target_volume\<close>, \<^verbatim>\<open>_vol_filter\<close>), the fields of its handle
  (\<^verbatim>\<open>_interrupted\<close>, whether \<^verbatim>\<open>_done_fut\<close> is done), its two local flags, the frame
  store, the script of the sink's answers and the trace of what the task did.
\<close>

record 'f pstate =
  target_volume :: real
  vol_filter :: 'f
  interrupted :: bool
  done_fut :: bool
  first_frame :: bool
  cancelled :: bool
  store :: "nat \<Rightarrow> audio_frame"
  sink_env :: "(act list \<times> sink_outcome) list"
  trace :: "action list"

section \<open>The handle\<close>

definition playing :: "'f pstate \<Rightarrow> bool" where
  "playing st = (\<not> done_fut st)"

definition interrupt :: "'f pstate \<Rightarrow> 'f pstate" where
  "interrupt st = (if \<not> playing st then st else st\<lparr>interrupted := True\<rparr>)"

fun apply_act :: "act \<Rightarrow> 'f pstate \<Rightarrow> 'f pstate" where
  "apply_act Interrupt st = interrupt st"
| "apply_act (Set_target_volume v) st = st\<lparr>target_volume := v\<rparr>"
| "apply_act Cancel_awaiter st = st\<lparr>done_fut := True\<rparr>"

fun apply_acts :: "act list \<Rightarrow> 'f pstate \<Rightarrow> 'f pstate" where
  "apply_acts [] st = st"
| "apply_acts (a # as) st = apply_acts as (apply_act a st)"

section \<open>The playout task\<close>

definition eps :: real where
  "eps = 1 / 1000000"

definition should_break :: "'f filter_ops \<Rightarrow> 'f pstate \<Rightarrow> bool" where
  "should_break F st = (interrupted st \<and> ffiltered F (vol_filter st) \<le> eps)"

text \<open>
  Rounding to the nearest double: a nonzero \<open>x\<close> with
  \<open>2 ^ e \<le> \<bar>x\<bar> < 2 ^ (e + 1)\<close> is rounded to a multiple of \<open>2 ^ (e - 52)\<close>, to the even
  multiple when two are equally near. \<open>float_div\<close> is \<^verbatim>\<open>/\<close> and \<open>float_mul\<close> is
  \<^verbatim>\<open>*\<close> on floats (an integer operand is converted exactly).
\<close>

definition round_half_even :: "real \<Rightarrow> int" where
  "round_half_even q =
     (let f = \<lfloor>q\<rfloor> in
      if q - real_of_int f < 1 / 2 then f
      else if 1 / 2 < q - real_of_int f then f + 1
      else if even f then f else f + 1)"

definition to_double :: "real \<Rightarrow> real" where
  "to_double x =
     (if x = 0 then 0
      else (let e = \<lfloor>log 2 \<bar>x\<bar>\<rfloor> - 52
            in real_of_int (round_half_even (x / 2 powr real_of_int e)) * 2 powr real_of_int e))"

definition float_div :: "real \<Rightarrow> real \<Rightarrow> real" where
  "float_div x y = to_double (x / y)"

definition float_mul :: "real \<Rightarrow> real \<Rightarrow> real" where
  "float_mul x y = to_double (x * y)"

text \<open>\<^verbatim>\<open>int(x)\<close> on a float: truncation towards zero.\<close>

definition py_int :: "real \<Rightarrow> int" where
  "py_int x = (if 0 \<le> x then \<lfloor>x\<rfloor> else \<lceil>x\<rceil>)"

definition int16_ok :: "int \<Rightarrow> bool" where
  "int16_ok v = (- 32768 \<le> v \<and> v \<le> 32767)"

definition scale_sample :: "int \<Rightarrow> real \<Rightarrow> int" where
  "scale_sample s vol =
     py_int (float_mul (float_mul (float_div (real_of_int s) 32768) vol) 32768)"

text \<open>
  The loop \<^verbatim>\<open>for si in range(0, len(data))\<close> over the window: one call of
  \<^verbatim>\<open>apply\<close> per sample, then the store of the scaled value into the window. The result
  is the exception raised (if any), the filter, and the window as it is when the loop
  is left.
\<close>

fun scale_samples ::
  "'f filter_ops \<Rightarrow> real \<Rightarrow> real \<Rightarrow> 'f \<Rightarrow> int list \<Rightarrow> error option \<times> 'f \<times> int list" where
  "scale_samples F dt tv flt [] = (None, flt, [])"
| "scale_samples F dt tv flt (s # ss) =
     (case fapply F dt tv flt of (vol, flt') \<Rightarrow>
        (let v = scale_sample s vol in
         if int16_ok v
         then (case scale_samples F dt tv flt' ss of (e, flt'', out) \<Rightarrow> (e, flt'', v # out))
         else (Some ValueError, flt', s # ss)))"

text \<open>
  \<^verbatim>\<open>await self._source.capture_frame(chunk_frame)\<close>: the call is recorded, the next
  entry of the sink's script says what happened while the task waited and how the await
  ended. A sink whose script is used up accepts.
\<close>

definition capture_frame :: "audio_frame \<Rightarrow> 'f pstate \<Rightarrow> 'f pstate \<times> error option" where
  "capture_frame chunk_frame st =
     (let st1 = st\<lparr>trace := trace st @ [Capture chunk_frame]\<rparr> in
      case sink_env st1 of
        [] \<Rightarrow> (st1, None)
      | (acts, res) # env \<Rightarrow>
          (let st2 = apply_acts acts (st1\<lparr>sink_env := env\<rparr>) in
           case res of
             Accepted \<Rightarrow> (st2, None)
           | Sink_raises err \<Rightarrow> (st2, Some err)))"

text \<open>
  One turn of the \<^verbatim>\<open>while\<close> loop after its break test: the window
  \<^verbatim>\<open>frame.data[i : i + rem]\<close>, the gain, the chunk frame and the await of
  \<^verbatim>\<open>capture_frame\<close>. The window is a view: the frame \<open>fid\<close> of the store holds the
  scaled samples afterwards.
\<close>

definition write_window :: "nat \<Rightarrow> nat \<Rightarrow> nat \<Rightarrow> int list \<Rightarrow> 'f pstate \<Rightarrow> 'f pstate" where
  "write_window fid i rem out st =
     st\<lparr>store := (store st)(fid := (store st fid)\<lparr>data :=
           take i (data (store st fid)) @ out @ drop (i + rem) (data (store st fid))\<rparr>)\<rparr>"

definition process_window ::
  "'f filter_ops \<Rightarrow> nat \<Rightarrow> nat \<Rightarrow> nat \<Rightarrow> 'f pstate \<Rightarrow> 'f pstate \<times> error option" where
  "process_window F fid i rem st =
     (let frame = store st fid;
          window = take rem (drop i (data frame));
          tv = (if \<not> interrupted st then target_volume st else 0)
      in if length window = 0 then (st, Some ZeroDivisionError)
         else
           (let dt = float_div 1 (real (length window)) in
            case scale_samples F dt tv (vol_filter st) window of (e, flt, out) \<Rightarrow>
              (let st1 = write_window fid i rem out (st\<lparr>vol_filter := flt\<rparr>) in
               case e of
                 Some err \<Rightarrow> (st1, Some err)
               | None \<Rightarrow>
                   capture_frame
                     \<lparr>data = out, sample_rate = sample_rate frame,
                      num_channels = num_channels frame, samples_per_channel = rem\<rparr> st1)))"

section \<open>Rounding to doubles\<close>

lemma round_half_even_int [simp]: "round_half_even (real_of_int n) = n"
  by (simp add: round_half_even_def)

lemma floor_log2_bounds:
  assumes "0 < y"
  shows "2 powr real_of_int \<lfloor>log 2 y\<rfloor> \<le> y" and "y < 2 powr real_of_int (\<lfloor>log 2 y\<rfloor> + 1)"
proof -
  have "2 powr real_of_int \<lfloor>log 2 y\<rfloor> \<le> 2 powr log 2 y"
    by (rule powr_mono) simp_all
  with assms show "2 powr real_of_int \<lfloor>log 2 y\<rfloor> \<le> y" by simp
  have "log 2 y < real_of_int (\<lfloor>log 2 y\<rfloor> + 1)" by linarith
  then have "2 powr log 2 y < 2 powr real_of_int (\<lfloor>log 2 y\<rfloor> + 1)"
    by (rule powr_less_mono) simp
  with assms show "y < 2 powr real_of_int (\<lfloor>log 2 y\<rfloor> + 1)" by simp
qed

lemma floor_log2_eqI:
  assumes "2 powr real_of_int e \<le> y" and "y < 2 powr real_of_int (e + 1)"
  shows "\<lfloor>log 2 y\<rfloor> = e"
proof -
  have y: "0 < y" using assms(1) by (smt (verit) powr_gt_zero)
  have "real_of_int e \<le> log 2 y"
    using assms(1) y by (simp add: le_log_iff)
  moreover have "log 2 y < real_of_int (e + 1)"
    using assms(2) y by (simp add: log_less_iff)
  ultimately show ?thesis by linarith
qed

lemma to_double_exact:
  assumes x: "x = real_of_int m * 2 powr real_of_int k" and m: "\<bar>m\<bar> < 2 ^ 53"
  shows "to_double x = x"
proof (cases "m = 0")
  case True
  with x show ?thesis by (simp add: to_double_def)
next
  case False
  then have x0: "x \<noteq> 0" using x by simp
  define e where "e = \<lfloor>log 2 \<bar>x\<bar>\<rfloor>"
  have ax: "\<bar>x\<bar> = real_of_int \<bar>m\<bar> * 2 powr real_of_int k"
    using x by (simp add: abs_mult)
  have "2 powr real_of_int e \<le> \<bar>x\<bar>"
    unfolding e_def using floor_log2_bounds(1) [of "\<bar>x\<bar>"] x0 by simp
  also have "\<bar>x\<bar> < 2 ^ 53 * 2 powr real_of_int k"
    unfolding ax using m by (simp add: of_int_less_iff [symmetric] del: of_int_less_iff)
  also have "\<dots> = 2 powr real_of_int (53 + k)"
    by (simp add: powr_add)
  finally have "real_of_int e < real_of_int (53 + k)" by simp
  then have ek: "e - 52 \<le> k" by linarith
  define j where "j = nat (k - (e - 52))"
  have k: "real_of_int k = real j + real_of_int (e - 52)"
    using ek by (simp add: j_def)
  have p: "2 powr real_of_int k = 2 ^ j * 2 powr real_of_int (e - 52)"
    unfolding k by (simp add: powr_add powr_realpow)
  have q: "x / 2 powr real_of_int (e - 52) = real_of_int (m * 2 ^ j)"
    unfolding x p by simp
  have r: "round_half_even (x / 2 powr real_of_int (e - 52)) = m * 2 ^ j"
    unfolding q by (rule round_half_even_int)
  have "to_double x = real_of_int (m * 2 ^ j) * 2 powr real_of_int (e - 52)"
    unfolding to_double_def Let_def e_def [symmetric] r using x0 by (simp only: if_False)
  also have "\<dots> = x" unfolding x p by simp
  finally show ?thesis .
qed

lemma to_double_grid:
  assumes "x * 2 ^ k \<in> \<int>" and "\<bar>x * 2 ^ k\<bar> < 2 ^ 53"
  shows "to_double x = x"
proof -
  from assms(1) obtain m where m: "x * 2 ^ k = real_of_int m" by (auto elim: Ints_cases)
  have "x = real_of_int m * 2 powr real_of_int (- int k)"
    using m [symmetric] by (simp add: powr_minus powr_realpow field_simps)
  moreover have "\<bar>m\<bar> < 2 ^ 53"
  proof -
    from assms(2) have "real_of_int \<bar>m\<bar> < real_of_int (2 ^ 53)"
      unfolding m by simp
    then show ?thesis by (simp only: of_int_less_iff)
  qed
  ultimately show ?thesis by (rule to_double_exact)
qed

lemmas to_double_grid20 = to_double_grid [where k = 20, simplified]
lemmas to_double_grid40 = to_double_grid [where k = 40, simplified]

lemma to_double_in_binade:
  assumes "2 powr real_of_int e \<le> \<bar>x\<bar>" and "\<bar>x\<bar> < 2 powr real_of_int (e + 1)"
  shows "to_double x =
     real_of_int (round_half_even (x / 2 powr real_of_int (e - 52))) * 2 powr real_of_int (e - 52)"
proof -
  have "x \<noteq> 0" using assms(1) by (smt (verit) powr_gt_zero)
  moreover have "\<lfloor>log 2 \<bar>x\<bar>\<rfloor> = e" using assms by (rule floor_log2_eqI)
  ultimately show ?thesis by (simp add: to_double_def Let_def)
qed

text \<open>
  The sample 3 under the double nearest to 1/3: the product of the doubles \<open>3 / 32768\<close>
  and \<open>6004799503160661 / 2 ^ 54\<close> lies halfway between two doubles and is rounded up
  to \<open>1 / 32768\<close>, so the task writes 1, where the exact product truncates to 0.
\<close>

lemma powr_values: "2 powr - 16 = (1 / 65536 :: real)" "2 powr - 15 = (1 / 32768 :: real)"
  "2 powr - 68 = (1 / 295147905179352825856 :: real)"
  by (simp_all add: powr_minus_divide)

lemma third_times_three:
  "float_mul (3 / 32768) (6004799503160661 / 18014398509481984) = 1 / 32768"
proof -
  let ?x = "3 / 32768 * (6004799503160661 / 18014398509481984) :: real"
  have b: "2 powr real_of_int (- 16) \<le> \<bar>?x\<bar>" "\<bar>?x\<bar> < 2 powr real_of_int (- 16 + 1)"
    by (simp_all add: powr_values)
  have q: "?x / 2 powr real_of_int (- 16 - 52) = 18014398509481983 / 2"
    by (simp add: powr_values)
  have r: "round_half_even (18014398509481983 / 2) = 9007199254740992"
    by (simp add: round_half_even_def)
  show ?thesis
    unfolding float_mul_def to_double_in_binade [OF b] q r by (simp add: powr_values)
qed

lemma scale_sample_third: "scale_sample 3 (6004799503160661 / 18014398509481984) = 1"
proof -
  have a: "float_div (real_of_int 3) 32768 = 3 / 32768"
    by (simp add: float_div_def to_double_grid20)
  have c: "float_mul (1 / 32768) 32768 = 1"
    by (simp add: float_mul_def to_double_grid20)
  show ?thesis
    unfolding scale_sample_def a third_times_three c by (simp add: py_int_def)
qed

section \<open>Basic facts\<close>

lemma apply_acts_fields [simp]:
  "store (apply_acts acts st) = store st"
  "vol_filter (apply_acts acts st) = vol_filter st"
  "trace (apply_acts acts st) = trace st"
  "sink_env (apply_acts acts st) = sink_env st"
  "first_frame (apply_acts acts st) = first_frame st"
  "cancelled (apply_acts acts st) = cancelled st"
proof (induction acts arbitrary: st)
  case Nil
  {
    case 1 show ?case by simp
  next
    case 2 show ?case by simp
  next
    case 3 show ?case by simp
  next
    case 4 show ?case by simp
  next
    case 5 show ?case by simp
  next
    case 6 show ?case by simp
  }
next
  case (Cons a as)
  {
    case 1 show ?case by (cases a) (simp_all add: Cons.IH interrupt_def)
  next
    case 2 show ?case by (cases a) (simp_all add: Cons.IH interrupt_def)
  next
    case 3 show ?case by (cases a) (simp_all add: Cons.IH interrupt_def)
  next
    case 4 show ?case by (cases a) (simp_all add: Cons.IH interrupt_def)
  next
    case 5 show ?case by (cases a) (simp_all add: Cons.IH interrupt_def)
  next
    case 6 show ?case by (cases a) (simp_all add: Cons.IH interrupt_def)
  }
qed

lemma apply_acts_done_mono:
  "done_fut st \<Longrightarrow> done_fut (apply_acts acts st)"
proof (induction acts arbitrary: st)
  case Nil
  then show ?case by simp
next
  case (Cons a as)
  then show ?case by (cases a) (simp_all add: interrupt_def)
qed

lemma apply_acts_interrupted_mono:
  "interrupted st \<Longrightarrow> interrupted (apply_acts acts st)"
proof (induction acts arbitrary: st)
  case Nil
  then show ?case by simp
next
  case (Cons a as)
  then show ?case by (cases a) (simp_all add: interrupt_def)
qed

lemma capture_frame_fields:
  "store (fst (capture_frame c st)) = store st"
  "vol_filter (fst (capture_frame c st)) = vol_filter st"
  "trace (fst (capture_frame c st)) = trace st @ [Capture c]"
  "first_frame (fst (capture_frame c st)) = first_frame st"
  "cancelled (fst (capture_frame c st)) = cancelled st"
  by (simp_all add: capture_frame_def Let_def split: list.splits sink_outcome.splits)

lemma scale_samples_length:
  "scale_samples F dt tv flt w = (e, flt', out) \<Longrightarrow> length out = length w"
proof (induction w arbitrary: flt e flt' out)
  case Nil
  then show ?case by simp
next
  case (Cons s ss)
  then show ?case
    by (auto simp: Let_def split: prod.splits if_splits)
qed

lemma process_window_zero:
  "rem = 0 \<or> length (data (store st fid)) \<le> i \<Longrightarrow>
   process_window F fid i rem st = (st, Some ZeroDivisionError)"
  unfolding process_window_def Let_def by auto

lemma process_window_pos:
  assumes "0 < rem" "i < length (data (store st fid))"
  shows "process_window F fid i rem st =
    (case scale_samples F (float_div 1 (real (min rem (length (data (store st fid)) - i))))
            (if \<not> interrupted st then target_volume st else 0) (vol_filter st)
            (take rem (drop i (data (store st fid)))) of
       (e, flt, out) \<Rightarrow>
         (case e of
            Some err \<Rightarrow> (write_window fid i rem out (st\<lparr>vol_filter := flt\<rparr>), Some err)
          | None \<Rightarrow>
              capture_frame
                \<lparr>data = out, sample_rate = sample_rate (store st fid),
                 num_channels = num_channels (store st fid), samples_per_channel = rem\<rparr>
                (write_window fid i rem out (st\<lparr>vol_filter := flt\<rparr>))))"
proof -
  from assms have "min rem (length (data (store st fid)) - i) \<noteq> 0" by simp
  then show ?thesis
    unfolding process_window_def Let_def by (auto simp: min_def)
qed

lemma process_window_ok_length:
  assumes "process_window F fid i rem st = (st', None)"
  shows "length (data (store st' fid)) = length (data (store st fid))"
    and "0 < rem" and "i < length (data (store st fid))"
proof -
  let ?d = "data (store st fid)"
  let ?w = "take rem (drop i ?d)"
  let ?tv = "if \<not> interrupted st then target_volume st else 0"
  have nz: "\<not> (rem = 0 \<or> length ?d \<le> i)"
  proof
    assume "rem = 0 \<or> length ?d \<le> i"
    from process_window_zero [OF this] assms show False by simp
  qed
  then show r: "0 < rem" and i: "i < length ?d" by auto
  obtain e flt out where sc:
    "scale_samples F (float_div 1 (real (min rem (length ?d - i)))) ?tv (vol_filter st) ?w = (e, flt, out)"
    using prod_cases3 by blast
  have len: "length out = length ?w" using scale_samples_length [OF sc] .
  from assms sc have "st' = fst (capture_frame \<lparr>data = out, sample_rate = sample_rate (store st fid),
            num_channels = num_channels (store st fid), samples_per_channel = rem\<rparr>
            (write_window fid i rem out (st\<lparr>vol_filter := flt\<rparr>)))"
    by (cases e) (auto simp: process_window_pos [OF r i])
  then have "data (store st' fid) = take i ?d @ out @ drop (i + rem) ?d"
    by (simp add: capture_frame_fields write_window_def)
  with len i show "length (data (store st' fid)) = length ?d"
    by (simp add: min_def)
qed

text \<open>
  The \<^verbatim>\<open>while i < len(frame.data)\<close> loop of one frame, entered with \<open>i\<close>: the break
  test, then one window of \<open>rem = min(ms20, len(frame.data) - i)\<close> samples. The second
  component is the exception that left the loop, if one did.
\<close>

function window_loop ::
  "'f filter_ops \<Rightarrow> nat \<Rightarrow> nat \<Rightarrow> nat \<Rightarrow> 'f pstate \<Rightarrow> 'f pstate \<times> error option" where
  "window_loop F fid ms20 i st =
     (if i < length (data (store st fid)) then
        (if should_break F st then (st\<lparr>cancelled := True\<rparr>, None)
         else
           (let rem = min ms20 (length (data (store st fid)) - i) in
            case process_window F fid i rem st of
              (st', Some err) \<Rightarrow> (st', Some err)
            | (st', None) \<Rightarrow> window_loop F fid ms20 (i + rem) st'))
      else (st, None))"
  by pat_completeness auto
lemma process_window_measure:
  assumes "(st', None) = process_window F fid i rem st"
  shows "length (data (store st' fid)) - (i + rem) < length (data (store st fid)) - i"
  using process_window_ok_length [OF assms [symmetric]] by simp

termination window_loop
  by (relation "measure (\<lambda>(F, fid, ms20, i, st). length (data (store st fid)) - i)")
    (auto intro: process_window_measure)

text \<open>
  The \<^verbatim>\<open>async for frame in handle._playout_source\<close> loop over the script of the
  source: the end of the script is the end of the iteration. \<open>pull\<close> is the await of
  the next frame, \<open>on_first_frame\<close> the test of \<^verbatim>\<open>first_frame\<close> at the head of the
  loop body.
\<close>

definition pull :: "act list \<Rightarrow> 'f pstate \<Rightarrow> 'f pstate" where
  "pull acts st = apply_acts acts (st\<lparr>trace := trace st @ [Pull]\<rparr>)"

definition on_first_frame :: "'f pstate \<Rightarrow> 'f pstate" where
  "on_first_frame st =
     (if first_frame st
      then st\<lparr>trace := trace st @ [Emit playout_started], first_frame := False\<rparr>
      else st)"

fun frame_loop ::
  "'f filter_ops \<Rightarrow> (act list \<times> pull_outcome) list \<Rightarrow> 'f pstate \<Rightarrow> 'f pstate \<times> error option" where
  "frame_loop F [] st = (st\<lparr>trace := trace st @ [Pull]\<rparr>, None)"
| "frame_loop F ((acts, r) # ps) st =
     (let st1 = pull acts st in
      case r of
        Pull_raises err \<Rightarrow> (st1, Some err)
      | Yield fid \<Rightarrow>
          (let st2 = on_first_frame st1
           in if should_break F st2 then (st2\<lparr>cancelled := True\<rparr>, None)
              else
                (case window_loop F fid (sample_rate (store st2 fid) div 100) 0 st2 of
                   (st3, Some err) \<Rightarrow> (st3, Some err)
                 | (st3, None) \<Rightarrow> frame_loop F ps st3)))"

text \<open>
  \<^verbatim>\<open>old_task.cancel(); await old_task\<close> under
  \<^verbatim>\<open>contextlib.suppress(asyncio.CancelledError)\<close>: a cancellation raised by the await
  is dropped, any other exception leaves the \<^verbatim>\<open>try\<close> block.
\<close>

definition hand_off ::
  "(act list \<times> await_outcome) option \<Rightarrow> 'f pstate \<Rightarrow> 'f pstate \<times> error option" where
  "hand_off old_task st =
     (case old_task of
        None \<Rightarrow> (st, None)
      | Some (acts, res) \<Rightarrow>
          (let st1 = apply_acts acts (st\<lparr>trace := trace st @ [Cancel_old, Await_old]\<rparr>) in
           case res of
             Returned \<Rightarrow> (st1, None)
           | Raised err \<Rightarrow> if err = CancelledError then (st1, None) else (st1, Some err)))"

text \<open>The \<^verbatim>\<open>finally\<close> block. \<^verbatim>\<open>set_result\<close> on a future that is done raises.\<close>

definition finalize :: "'f pstate \<times> error option \<Rightarrow> 'f pstate \<times> error option" where
  "finalize r =
     (case r of (st, e) \<Rightarrow>
        (let st1 = (if \<not> first_frame st
                    then st\<lparr>trace := trace st @ [Emit (playout_stopped (cancelled st))]\<rparr>
                    else st)
         in if done_fut st1 then (st1, Some InvalidStateError)
            else (st1\<lparr>done_fut := True, trace := trace st1 @ [Set_result]\<rparr>, e)))"

definition playout_task ::
  "'f filter_ops \<Rightarrow> (act list \<times> await_outcome) option \<Rightarrow> (act list \<times> pull_outcome) list
     \<Rightarrow> 'f pstate \<Rightarrow> 'f pstate \<times> error option" where
  "playout_task F old_task playout_source st =
     (let st0 = st\<lparr>first_frame := True, cancelled := False\<rparr> in
      finalize
        (case hand_off old_task st0 of
           (st1, Some err) \<Rightarrow> (st1, Some err)
         | (st1, None) \<Rightarrow> frame_loop F playout_source st1))"

section \<open>One window\<close>

declare window_loop.simps [simp del]

lemma capture_frame_interrupted_mono:
  "interrupted st \<Longrightarrow> interrupted (fst (capture_frame c st))"
  by (auto simp: capture_frame_def Let_def apply_acts_interrupted_mono
      split: list.splits sink_outcome.splits)

lemma write_window_fields [simp]:
  "vol_filter (write_window fid i rem out st) = vol_filter st"
  "trace (write_window fid i rem out st) = trace st"
  "first_frame (write_window fid i rem out st) = first_frame st"
  "cancelled (write_window fid i rem out st) = cancelled st"
  "done_fut (write_window fid i rem out st) = done_fut st"
  "interrupted (write_window fid i rem out st) = interrupted st"
  "target_volume (write_window fid i rem out st) = target_volume st"
  "sink_env (write_window fid i rem out st) = sink_env st"
  "sample_rate (store (write_window fid i rem out st) g) = sample_rate (store st g)"
  "num_channels (store (write_window fid i rem out st) g) = num_channels (store st g)"
  "g \<noteq> fid \<Longrightarrow> store (write_window fid i rem out st) g = store st g"
  "data (store (write_window fid i rem out st) fid) =
     take i (data (store st fid)) @ out @ drop (i + rem) (data (store st fid))"
  by (simp_all add: write_window_def)

lemma process_window_cases:
  obtains
    (zero) "rem = 0 \<or> length (data (store st fid)) \<le> i"
      "process_window F fid i rem st = (st, Some ZeroDivisionError)"
  | (store_error) flt out err where "0 < rem" "i < length (data (store st fid))"
      "length out = min rem (length (data (store st fid)) - i)"
      "process_window F fid i rem st =
         (write_window fid i rem out (st\<lparr>vol_filter := flt\<rparr>), Some err)"
  | (captured) flt out where "0 < rem" "i < length (data (store st fid))"
      "length out = min rem (length (data (store st fid)) - i)"
      "process_window F fid i rem st =
         capture_frame \<lparr>data = out, sample_rate = sample_rate (store st fid),
            num_channels = num_channels (store st fid), samples_per_channel = rem\<rparr>
           (write_window fid i rem out (st\<lparr>vol_filter := flt\<rparr>))"
proof (cases "rem = 0 \<or> length (data (store st fid)) \<le> i")
  case True
  with process_window_zero [OF True] zero show ?thesis by blast
next
  case False
  then have r: "0 < rem" and i: "i < length (data (store st fid))" by auto
  let ?d = "data (store st fid)"
  obtain e flt out where sc:
    "scale_samples F (float_div 1 (real (min rem (length ?d - i))))
       (if \<not> interrupted st then target_volume st else 0) (vol_filter st)
       (take rem (drop i ?d)) = (e, flt, out)"
    using prod_cases3 by blast
  from scale_samples_length [OF sc] have len: "length out = min rem (length ?d - i)"
    by (simp add: min.commute)
  show ?thesis
  proof (cases e)
    case None
    with sc have "process_window F fid i rem st =
         capture_frame \<lparr>data = out, sample_rate = sample_rate (store st fid),
            num_channels = num_channels (store st fid), samples_per_channel = rem\<rparr>
           (write_window fid i rem out (st\<lparr>vol_filter := flt\<rparr>))"
      by (simp add: process_window_pos [OF r i])
    with captured r i len show ?thesis by blast
  next
    case (Some err)
    with sc have "process_window F fid i rem st =
         (write_window fid i rem out (st\<lparr>vol_filter := flt\<rparr>), Some err)"
      by (simp add: process_window_pos [OF r i])
    with store_error r i len show ?thesis by blast
  qed
qed

lemma process_window_facts:
  assumes "process_window F fid i rem st = (st', e)"
  shows "sample_rate (store st' g) = sample_rate (store st g)"
    and "num_channels (store st' g) = num_channels (store st g)"
    and "length (data (store st' g)) = length (data (store st g))"
    and "first_frame st' = first_frame st"
    and "cancelled st' = cancelled st"
    and "interrupted st \<Longrightarrow> interrupted st'"
proof -
  have "sample_rate (store st' g) = sample_rate (store st g) \<and>
    num_channels (store st' g) = num_channels (store st g) \<and>
    length (data (store st' g)) = length (data (store st g)) \<and>
    first_frame st' = first_frame st \<and> cancelled st' = cancelled st \<and>
    (interrupted st \<longrightarrow> interrupted st')"
  proof (cases rule: process_window_cases [of rem st fid i F])
    case zero
    with assms show ?thesis by simp
  next
    case (store_error flt out err)
    with assms have st': "st' = write_window fid i rem out (st\<lparr>vol_filter := flt\<rparr>)" by simp
    from store_error(1-3) show ?thesis unfolding st'
      by (cases "g = fid") (auto simp: min_def)
  next
    case (captured flt out)
    let ?c = "\<lparr>data = out, sample_rate = sample_rate (store st fid),
            num_channels = num_channels (store st fid), samples_per_channel = rem\<rparr>"
    from captured assms have st': "st' = fst (capture_frame ?c
        (write_window fid i rem out (st\<lparr>vol_filter := flt\<rparr>)))"
    by (metis fst_conv)
    from captured(1-3) show ?thesis unfolding st'
      by (cases "g = fid") (auto simp: min_def capture_frame_fields capture_frame_interrupted_mono)
  qed
  then show "sample_rate (store st' g) = sample_rate (store st g)"
    and "num_channels (store st' g) = num_channels (store st g)"
    and "length (data (store st' g)) = length (data (store st g))"
    and "first_frame st' = first_frame st"
    and "cancelled st' = cancelled st"
    and "interrupted st \<Longrightarrow> interrupted st'"
    by simp_all
qed

lemma process_window_trace:
  assumes "process_window F fid i rem st = (st', e)"
  shows "(trace st' = trace st \<and> e \<noteq> None) \<or>
         (\<exists>c. trace st' = trace st @ [Capture c] \<and>
              length (data c) = min rem (length (data (store st fid)) - i) \<and>
              0 < length (data c) \<and>
              samples_per_channel c = rem \<and>
              sample_rate c = sample_rate (store st fid) \<and>
              num_channels c = num_channels (store st fid))"
proof (cases rule: process_window_cases [of rem st fid i F])
  case zero
  with assms show ?thesis by auto
next
  case (store_error flt out err)
  with assms show ?thesis by auto
next
  case (captured flt out)
  let ?c = "\<lparr>data = out, sample_rate = sample_rate (store st fid),
            num_channels = num_channels (store st fid), samples_per_channel = rem\<rparr>"
  from captured assms have st': "st' = fst (capture_frame ?c
        (write_window fid i rem out (st\<lparr>vol_filter := flt\<rparr>)))"
    by (metis fst_conv)
  have "trace st' = trace st @ [Capture ?c]"
    unfolding st' by (simp add: capture_frame_fields)
  with captured(1-3) show ?thesis by auto
qed

lemma window_loop_unfold:
  "window_loop F fid ms20 i st =
     (if \<not> i < length (data (store st fid)) then (st, None)
      else if should_break F st then (st\<lparr>cancelled := True\<rparr>, None)
      else (case process_window F fid i (min ms20 (length (data (store st fid)) - i)) st of
              (st', Some err) \<Rightarrow> (st', Some err)
            | (st', None) \<Rightarrow>
                window_loop F fid ms20 (i + min ms20 (length (data (store st fid)) - i)) st'))"
  by (subst window_loop.simps) (simp add: Let_def)

section \<open>The window loop\<close>

lemma window_loop_induct [consumes 1, case_names finished break error step]:
  assumes run: "window_loop F fid ms20 i st = (st', e)"
    and finished: "\<And>i st. \<not> i < length (data (store st fid)) \<Longrightarrow> P i st st None"
    and break: "\<And>i st. i < length (data (store st fid)) \<Longrightarrow> should_break F st \<Longrightarrow>
        P i st (st\<lparr>cancelled := True\<rparr>) None"
    and error: "\<And>i st st1 err. i < length (data (store st fid)) \<Longrightarrow> \<not> should_break F st \<Longrightarrow>
        process_window F fid i (min ms20 (length (data (store st fid)) - i)) st = (st1, Some err) \<Longrightarrow>
        P i st st1 (Some err)"
    and step: "\<And>i st st1 st' e. i < length (data (store st fid)) \<Longrightarrow> \<not> should_break F st \<Longrightarrow>
        process_window F fid i (min ms20 (length (data (store st fid)) - i)) st = (st1, None) \<Longrightarrow>
        window_loop F fid ms20 (i + min ms20 (length (data (store st fid)) - i)) st1 = (st', e) \<Longrightarrow>
        P (i + min ms20 (length (data (store st fid)) - i)) st1 st' e \<Longrightarrow> P i st st' e"
  shows "P i st st' e"
  using assms
proof (induction F fid ms20 i st arbitrary: st' e rule: window_loop.induct)
  case (1 F fid ms20 i st)
  note unfold = window_loop_unfold [of F fid ms20 i st]
  show ?case
  proof (cases "i < length (data (store st fid))")
    case False
    with "1.prems"(1) unfold have "st' = st" "e = None" by simp_all
    with False "1.prems"(2) show ?thesis by simp
  next
    case i: True
    show ?thesis
    proof (cases "should_break F st")
      case True
      with i "1.prems"(1) unfold have "st' = st\<lparr>cancelled := True\<rparr>" "e = None" by simp_all
      with i True "1.prems"(3) show ?thesis by simp
    next
      case nb: False
      let ?rem = "min ms20 (length (data (store st fid)) - i)"
      obtain st1 r where pw: "process_window F fid i ?rem st = (st1, r)"
        by (cases "process_window F fid i ?rem st") auto
      show ?thesis
      proof (cases r)
        case None
        with i nb pw "1.prems"(1) unfold
        have rec: "window_loop F fid ms20 (i + ?rem) st1 = (st', e)" by simp
        have "P (i + ?rem) st1 st' e"
          by (rule "1.IH" [OF i nb refl pw [symmetric] None rec])
            (rule "1.prems"(2-5); assumption)+
        with "1.prems"(5) [OF i nb pw [unfolded None] rec] show ?thesis by simp
      next
        case (Some err)
        with i nb pw "1.prems"(1) unfold have "st' = st1" "e = Some err" by simp_all
        with "1.prems"(4) [OF i nb pw [unfolded Some]] show ?thesis by simp
      qed
    qed
  qed
qed

definition chunk_ok :: "audio_frame \<Rightarrow> nat \<Rightarrow> nat \<Rightarrow> nat \<Rightarrow> audio_frame \<Rightarrow> bool" where
  "chunk_ok frame ms20 i k c =
     (length (data c) = min ms20 (length (data frame) - (i + k * ms20)) \<and>
      0 < length (data c) \<and>
      samples_per_channel c = length (data c) \<and>
      sample_rate c = sample_rate frame \<and>
      num_channels c = num_channels frame)"

lemma window_loop_chunks:
  assumes "window_loop F fid ms20 i st = (st', e)"
  shows "\<exists>cs. trace st' = trace st @ map Capture cs \<and>
           (\<forall>k<length cs. chunk_ok (store st fid) ms20 i k (cs ! k)) \<and>
           (e = None \<and> \<not> cancelled st' \<longrightarrow>
              sum_list (map (\<lambda>c. length (data c)) cs) = length (data (store st fid)) - i)"
  using assms
proof (induction rule: window_loop_induct)
  case (finished i st)
  then show ?case by (intro exI [of _ "[]"]) simp
next
  case (break i st)
  then show ?case by (intro exI [of _ "[]"]) simp
next
  case (error i st st1 err)
  let ?n = "length (data (store st fid))"
  from process_window_trace [OF error(3)] show ?case
  proof
    assume "trace st1 = trace st \<and> Some err \<noteq> None"
    then show ?thesis by (intro exI [of _ "[]"]) simp
  next
    assume "\<exists>c. trace st1 = trace st @ [Capture c] \<and>
      length (data c) = min (min ms20 (?n - i)) (?n - i) \<and>
      0 < length (data c) \<and>
      samples_per_channel c = min ms20 (?n - i) \<and>
      sample_rate c = sample_rate (store st fid) \<and>
      num_channels c = num_channels (store st fid)"
    then obtain c where c: "trace st1 = trace st @ [Capture c]"
      "length (data c) = min (min ms20 (?n - i)) (?n - i)"
      "0 < length (data c)"
      "samples_per_channel c = min ms20 (?n - i)"
      "sample_rate c = sample_rate (store st fid)"
      "num_channels c = num_channels (store st fid)" by blast
    then show ?thesis
      by (intro exI [of _ "[c]"]) (simp add: chunk_ok_def)
  qed
next
  case (step i st st1 st' e)
  let ?n = "length (data (store st fid))"
  let ?rem = "min ms20 (?n - i)"
  from process_window_trace [OF step(3)]
  obtain c where c: "trace st1 = trace st @ [Capture c]"
      "length (data c) = min ?rem (?n - i)"
      "0 < length (data c)"
      "samples_per_channel c = ?rem"
      "sample_rate c = sample_rate (store st fid)"
      "num_channels c = num_channels (store st fid)" by blast
  note pf = process_window_facts [OF step(3)]
  from step.IH obtain cs where cs: "trace st' = trace st1 @ map Capture cs"
    "\<forall>k<length cs. chunk_ok (store st1 fid) ms20 (i + ?rem) k (cs ! k)"
    "e = None \<and> \<not> cancelled st' \<longrightarrow>
       sum_list (map (\<lambda>c. length (data c)) cs) = length (data (store st1 fid)) - (i + ?rem)"
    by blast
  have tr: "trace st' = trace st @ map Capture (c # cs)"
    using c(1) cs(1) by simp
  have ok: "chunk_ok (store st fid) ms20 i k ((c # cs) ! k)" if "k < length (c # cs)" for k
  proof (cases k)
    case 0
    with c show ?thesis by (simp add: chunk_ok_def)
  next
    case (Suc j)
    with that have "j < length cs" by simp
    with cs(2) have "chunk_ok (store st1 fid) ms20 (i + ?rem) j (cs ! j)" by blast
    then show ?thesis
      unfolding Suc chunk_ok_def using pf(1-3) [of fid]
      by (auto simp: min_def simp del: length_greater_0_conv split: if_splits)
  qed
  have sum: "sum_list (map (\<lambda>c. length (data c)) (c # cs)) = ?n - i"
    if "e = None \<and> \<not> cancelled st'"
    using cs(3) that c(2) pf(3) [of fid] step(1) by (auto simp: min_def)
  from tr ok sum show ?case by blast
qed

section \<open>The specification's reading of the gain loop\<close>

text \<open>
  The values \<^verbatim>\<open>apply\<close> returns when the filter is advanced \<open>n\<close> times with the same
  \<open>dt\<close> and target, one call after the other, and the filter after these calls.
\<close>

fun filter_values :: "'f filter_ops \<Rightarrow> real \<Rightarrow> real \<Rightarrow> 'f \<Rightarrow> nat \<Rightarrow> real list" where
  "filter_values F dt tv flt 0 = []"
| "filter_values F dt tv flt (Suc n) =
     (case fapply F dt tv flt of (vol, flt') \<Rightarrow> vol # filter_values F dt tv flt' n)"

fun filter_after :: "'f filter_ops \<Rightarrow> real \<Rightarrow> real \<Rightarrow> 'f \<Rightarrow> nat \<Rightarrow> 'f" where
  "filter_after F dt tv flt 0 = flt"
| "filter_after F dt tv flt (Suc n) =
     (case fapply F dt tv flt of (vol, flt') \<Rightarrow> filter_after F dt tv flt' n)"

text \<open>The specification's formula for one sample: \<^verbatim>\<open>round(sample * filterValue)\<close>.\<close>

definition spec_scale_sample :: "int \<Rightarrow> real \<Rightarrow> int" where
  "spec_scale_sample s vol = round ((real_of_int s / 32768) * vol * 32768)"

section \<open>A filter and a state to run the task on\<close>

text \<open>
  Modelled from the spec: the class \<^verbatim>\<open>utils.ExpFilter\<close> is not in the file. The
  specification gives its state (the smoothed value and the coefficient \<open>alpha\<close>) and
  its step: \<^verbatim>\<open>apply(dt, target)\<close> replaces the smoothed value by the convex blend of
  the value and the target with the weight \<open>alpha\<close> to the power \<open>dt\<close>, and returns it;
  \<^verbatim>\<open>filtered()\<close> reads it.
\<close>

record exp_filter =
  alpha :: real
  filtered_value :: real

definition exp_apply :: "real \<Rightarrow> real \<Rightarrow> exp_filter \<Rightarrow> real \<times> exp_filter" where
  "exp_apply dt target f =
     (let a = alpha f powr dt;
          v = a * filtered_value f + (1 - a) * target
      in (v, f\<lparr>filtered_value := v\<rparr>))"

definition exp_filter_ops :: "exp_filter filter_ops" where
  "exp_filter_ops = \<lparr>fapply = exp_apply, ffiltered = filtered_value\<rparr>"

definition frame0 :: audio_frame where
  "frame0 = \<lparr>data = [1, 32767], sample_rate = 100, num_channels = 1, samples_per_channel = 2\<rparr>"

definition st0 :: "exp_filter pstate" where
  "st0 = \<lparr>target_volume = 1 / 2, vol_filter = \<lparr>alpha = 1 / 2, filtered_value = 1\<rparr>,
          interrupted = False, done_fut = False, first_frame = True, cancelled = False,
          store = (\<lambda>_. frame0), sink_env = [], trace = []\<rparr>"

text \<open>An interrupted handle, a filter with \<open>alpha = 1/4\<close> and a frame at 200 Hz,
  whose windows have two samples.\<close>

definition frame_int :: audio_frame where
  "frame_int = \<lparr>data = [3, - 5, 7], sample_rate = 200, num_channels = 1,
              samples_per_channel = 3\<rparr>"

definition st_int :: "exp_filter pstate" where
  "st_int = \<lparr>target_volume = 1, vol_filter = \<lparr>alpha = 1 / 4, filtered_value = 1\<rparr>,
          interrupted = True, done_fut = False, first_frame = False, cancelled = False,
          store = (\<lambda>_. frame_int), sink_env = [], trace = []\<rparr>"

lemma quarter_powr_half: "(1 / 4 :: real) powr (1 / 2) = 1 / 2"
proof -
  have "sqrt (1 / 4 :: real) = 1 / 2"
    by (rule real_sqrt_unique) (simp_all add: power2_eq_square)
  then show ?thesis by (simp add: powr_half_sqrt)
qed

lemmas ex_defs = st0_def frame0_def exp_filter_ops_def exp_apply_def scale_sample_def
  py_int_def int16_ok_def capture_frame_def write_window_def process_window_def Let_def
  float_div_def float_mul_def to_double_grid20 to_double_grid40

section \<open>Gain application\<close>

lemma scale_samples_ok:
  "scale_samples F dt tv flt w = (None, flt', out) \<Longrightarrow>
     out = map2 scale_sample w (filter_values F dt tv flt (length w)) \<and>
     flt' = filter_after F dt tv flt (length w)"
proof (induction w arbitrary: flt flt' out)
  case Nil
  then show ?case by simp
next
  case (Cons s ss)
  then show ?case
    by (auto simp: Let_def split: prod.splits if_splits)
qed

lemma process_window_captured:
  assumes pw: "process_window F fid i rem st = (st', e)"
    and tr: "trace st' = trace st @ [Capture c]"
  shows "\<exists>flt out. scale_samples F (float_div 1 (real (length (take rem (drop i (data (store st fid)))))))
            (if \<not> interrupted st then target_volume st else 0) (vol_filter st)
            (take rem (drop i (data (store st fid)))) = (None, flt, out) \<and>
          vol_filter st' = flt \<and>
          c = \<lparr>data = out, sample_rate = sample_rate (store st fid),
               num_channels = num_channels (store st fid), samples_per_channel = rem\<rparr>"
proof -
  let ?d = "data (store st fid)"
  let ?w = "take rem (drop i ?d)"
  let ?tv = "if \<not> interrupted st then target_volume st else 0"
  have nz: "\<not> (rem = 0 \<or> length ?d \<le> i)"
  proof
    assume "rem = 0 \<or> length ?d \<le> i"
    from process_window_zero [OF this] pw tr show False by simp
  qed
  then have r: "0 < rem" and i: "i < length ?d" by auto
  obtain e' flt out where sc:
    "scale_samples F (float_div 1 (real (min rem (length ?d - i)))) ?tv (vol_filter st) ?w = (e', flt, out)"
    using prod_cases3 by blast
  let ?c = "\<lparr>data = out, sample_rate = sample_rate (store st fid),
               num_channels = num_channels (store st fid), samples_per_channel = rem\<rparr>"
  let ?st1 = "write_window fid i rem out (st\<lparr>vol_filter := flt\<rparr>)"
  have e': "e' = None"
  proof (cases e')
    case None
    then show ?thesis .
  next
    case (Some err)
    with pw sc have "st' = ?st1" by (simp add: process_window_pos [OF r i])
    then have "trace st' = trace st" by (simp add: write_window_def)
    with tr show ?thesis by simp
  qed
  with pw sc have "st' = fst (capture_frame ?c ?st1)"
    by (simp add: process_window_pos [OF r i])
  then have "trace st' = trace st @ [Capture ?c]" and "vol_filter st' = flt"
    by (simp_all add: capture_frame_fields write_window_def)
  with tr sc e' r i show ?thesis by (simp add: min.commute)
qed

text \<open>
  C1. For every sample window the task processes and hands to the sink, the target gain
  is 0 if the handle is interrupted and the target volume otherwise, \<open>dt\<close> is 1 divided
  by the number of samples of the window, the filter is advanced once per sample in
  order, and each output sample is the sample divided by 32768, times the value the
  filter returned for it, times 32768, in float arithmetic, cut towards zero by
  \<^verbatim>\<open>int\<close> (not rounded).
\<close>

theorem gain_application_per_window:
  assumes "process_window F fid i rem st = (st', e)"
    and "trace st' = trace st @ [Capture c]"
  shows "let window = take rem (drop i (data (store st fid)));
             tv = (if interrupted st then 0 else target_volume st);
             dt = float_div 1 (real (length window))
         in data c = map2 scale_sample window
                       (filter_values F dt tv (vol_filter st) (length window)) \<and>
            vol_filter st' = filter_after F dt tv (vol_filter st) (length window)"
proof -
  from process_window_captured [OF assms] obtain flt out where
    sc: "scale_samples F (float_div 1 (real (length (take rem (drop i (data (store st fid)))))))
            (if \<not> interrupted st then target_volume st else 0) (vol_filter st)
            (take rem (drop i (data (store st fid)))) = (None, flt, out)"
    and f: "vol_filter st' = flt" and c: "data c = out"
    by auto
  have tv: "(if \<not> interrupted st then target_volume st else 0) =
            (if interrupted st then 0 else target_volume st)" by simp
  from scale_samples_ok [OF sc] f c show ?thesis
    unfolding Let_def tv by simp
qed

theorem gain_application_witness:
  "data \<lparr>data = [1, - 1], sample_rate = 200, num_channels = 1, samples_per_channel = 2\<rparr> =
     map2 scale_sample [3, - 5] (filter_values exp_filter_ops (1 / 2) 0 (vol_filter st_int) 2) \<and>
   filter_values exp_filter_ops (1 / 2) 0 (vol_filter st_int) 2 = [1 / 2, 1 / 4] \<and>
   vol_filter (fst (process_window exp_filter_ops 0 0 2 st_int)) =
     filter_after exp_filter_ops (1 / 2) 0 (vol_filter st_int) 2"
proof -
  let ?c = "\<lparr>data = [1, - 1], sample_rate = 200, num_channels = 1, samples_per_channel = 2\<rparr>"
  have h1: "process_window exp_filter_ops 0 0 2 st_int =
      (fst (process_window exp_filter_ops 0 0 2 st_int), None)"
    by (simp add: ex_defs st_int_def frame_int_def quarter_powr_half)
  have h2: "trace (fst (process_window exp_filter_ops 0 0 2 st_int)) = trace st_int @ [Capture ?c]"
    by (simp add: ex_defs st_int_def frame_int_def quarter_powr_half)
  have w: "take 2 (drop 0 (data (store st_int 0))) = [3, - 5]" "interrupted st_int = True"
    by (simp_all add: st_int_def frame_int_def)
  have v: "filter_values exp_filter_ops (1 / 2) 0 (vol_filter st_int) 2 = [1 / 2, 1 / 4]"
    by (simp add: numeral_2_eq_2 exp_filter_ops_def exp_apply_def st_int_def quarter_powr_half
        Let_def)
  have l: "length [3, - 5 :: int] = 2" by simp
  have d: "float_div 1 (real 2) = 1 / 2"
    by (simp add: float_div_def to_double_grid20)
  note t = gain_application_per_window [OF h1 h2, unfolded Let_def w if_True l d]
  from t v show ?thesis by blast
qed

text \<open>
  The sample 1 under the filter value 3/4 (every float operation is exact here): the
  task writes 0, rounding gives 1.
\<close>

theorem gain_application_counterexample:
  "trace (fst (process_window exp_filter_ops 0 0 1 st0)) =
     [Capture \<lparr>data = [0], sample_rate = 100, num_channels = 1, samples_per_channel = 1\<rparr>] \<and>
   fst (fapply exp_filter_ops 1 (1 / 2) (vol_filter st0)) = 3 / 4 \<and>
   spec_scale_sample 1 (3 / 4) = 1"
  by (simp add: ex_defs spec_scale_sample_def round_def)

section \<open>Sub-chunking\<close>

text \<open>
  The windows of one run of the window loop from the start of a frame: consecutive
  windows of \<open>sample_rate div 100\<close> samples, only the last may be shorter.
\<close>

lemma window_loop_split:
  assumes "window_loop F fid (sample_rate (store st fid) div 100) 0 st = (st', e)"
  shows "\<exists>cs. trace st' = trace st @ map Capture cs \<and>
           (\<forall>k<length cs.
              length (data (cs ! k)) =
                min (sample_rate (store st fid) div 100)
                    (length (data (store st fid)) - k * (sample_rate (store st fid) div 100)) \<and>
              0 < length (data (cs ! k)) \<and>
              samples_per_channel (cs ! k) = length (data (cs ! k)) \<and>
              sample_rate (cs ! k) = sample_rate (store st fid) \<and>
              num_channels (cs ! k) = num_channels (store st fid)) \<and>
           (\<forall>k. Suc k < length cs \<longrightarrow>
              length (data (cs ! k)) = sample_rate (store st fid) div 100) \<and>
           (e = None \<and> \<not> cancelled st' \<longrightarrow>
              sum_list (map (\<lambda>c. length (data c)) cs) = length (data (store st fid)))"
proof -
  let ?ms20 = "sample_rate (store st fid) div 100"
  let ?n = "length (data (store st fid))"
  from window_loop_chunks [OF assms] obtain cs where
    tr: "trace st' = trace st @ map Capture cs"
    and ok: "\<forall>k<length cs. chunk_ok (store st fid) ?ms20 0 k (cs ! k)"
    and sum: "e = None \<and> \<not> cancelled st' \<longrightarrow>
              sum_list (map (\<lambda>c. length (data c)) cs) = ?n - 0"
    by blast
  have full: "length (data (cs ! k)) = ?ms20" if "Suc k < length cs" for k
  proof -
    from that ok have a: "chunk_ok (store st fid) ?ms20 0 (Suc k) (cs ! Suc k)"
      and b: "chunk_ok (store st fid) ?ms20 0 k (cs ! k)" by simp_all
    from a have "length (data (cs ! Suc k)) = min ?ms20 (?n - (0 + Suc k * ?ms20))"
      and "0 < length (data (cs ! Suc k))"
      unfolding chunk_ok_def by blast+
    then have "?ms20 + k * ?ms20 < ?n"
      by (auto simp del: length_greater_0_conv)
    with b show ?thesis by (simp add: chunk_ok_def)
  qed
  have ok': "\<forall>k<length cs.
              length (data (cs ! k)) = min ?ms20 (?n - k * ?ms20) \<and>
              0 < length (data (cs ! k)) \<and>
              samples_per_channel (cs ! k) = length (data (cs ! k)) \<and>
              sample_rate (cs ! k) = sample_rate (store st fid) \<and>
              num_channels (cs ! k) = num_channels (store st fid)"
    using ok unfolding chunk_ok_def by (simp only: add_0)
  have sum': "e = None \<and> \<not> cancelled st' \<longrightarrow>
              sum_list (map (\<lambda>c. length (data c)) cs) = ?n"
    using sum by simp
  from tr ok' sum' full show ?thesis by blast
qed

section \<open>The frame loop\<close>

lemma should_break_update [simp]:
  "should_break F (st\<lparr>cancelled := c\<rparr>) = should_break F st"
  "should_break F (st\<lparr>trace := t\<rparr>) = should_break F st"
  "should_break F (st\<lparr>first_frame := b\<rparr>) = should_break F st"
  by (simp_all add: should_break_def)

lemma pull_fields [simp]:
  "store (pull acts st) = store st"
  "vol_filter (pull acts st) = vol_filter st"
  "trace (pull acts st) = trace st @ [Pull]"
  "sink_env (pull acts st) = sink_env st"
  "first_frame (pull acts st) = first_frame st"
  "cancelled (pull acts st) = cancelled st"
  by (simp_all add: pull_def)

lemma pull_interrupted_mono: "interrupted st \<Longrightarrow> interrupted (pull acts st)"
  by (simp add: pull_def apply_acts_interrupted_mono)

lemma on_first_frame_fields [simp]:
  "store (on_first_frame st) = store st"
  "vol_filter (on_first_frame st) = vol_filter st"
  "trace (on_first_frame st) =
     trace st @ (if first_frame st then [Emit playout_started] else [])"
  "sink_env (on_first_frame st) = sink_env st"
  "first_frame (on_first_frame st) = False"
  "cancelled (on_first_frame st) = cancelled st"
  "done_fut (on_first_frame st) = done_fut st"
  "interrupted (on_first_frame st) = interrupted st"
  "target_volume (on_first_frame st) = target_volume st"
  by (simp_all add: on_first_frame_def)

lemma on_first_frame_id: "\<not> first_frame st \<Longrightarrow> on_first_frame st = st"
  by (simp add: on_first_frame_def)

lemma should_break_pull: "should_break F st \<Longrightarrow> should_break F (pull acts st)"
  by (simp add: should_break_def pull_interrupted_mono)

lemma should_break_on_first_frame [simp]:
  "should_break F (on_first_frame st) = should_break F st"
  by (simp add: should_break_def)

lemma window_loop_break_now:
  "should_break F st \<Longrightarrow> i < length (data (store st fid)) \<Longrightarrow>
   window_loop F fid ms20 i st = (st\<lparr>cancelled := True\<rparr>, None)"
  by (subst window_loop_unfold) simp

lemma window_loop_facts:
  assumes "window_loop F fid ms20 i st = (st', e)"
  shows "first_frame st' = first_frame st \<and>
         (interrupted st \<longrightarrow> interrupted st') \<and>
         (cancelled st \<longrightarrow> cancelled st') \<and>
         (cancelled st' \<longrightarrow> cancelled st \<or> should_break F st')"
  using assms
proof (induction rule: window_loop_induct)
  case (finished i st)
  then show ?case by simp
next
  case (break i st)
  then show ?case by simp
next
  case (error i st st1 err)
  from process_window_facts(4-6) [OF error(3)] show ?case by simp
next
  case (step i st st1 st' e)
  from process_window_facts(4-6) [OF step(3)] step.IH show ?case by simp
qed

text \<open>Nothing is processed from a state in which the break condition holds.\<close>

lemma frame_loop_from_break:
  assumes "should_break F st"
  shows "frame_loop F ps st =
     (case ps of
        [] \<Rightarrow> (st\<lparr>trace := trace st @ [Pull]\<rparr>, None)
      | (acts, Pull_raises err) # ps' \<Rightarrow> (pull acts st, Some err)
      | (acts, Yield fid) # ps' \<Rightarrow> ((on_first_frame (pull acts st))\<lparr>cancelled := True\<rparr>, None))"
  using should_break_pull [OF assms]
  by (auto split: list.splits pull_outcome.splits simp: Let_def)

lemma frame_loop_keeps_break:
  assumes "should_break F st" and "frame_loop F ps st = (st', e)"
  shows "should_break F st'"
proof -
  note sb = should_break_pull [OF assms(1)]
  from assms(2) show ?thesis
    unfolding frame_loop_from_break [OF assms(1)]
    using sb assms(1)
    by (auto split: list.splits pull_outcome.splits)
qed

lemma frame_loop_facts:
  assumes "frame_loop F ps st = (st', e)"
  shows "(interrupted st \<longrightarrow> interrupted st') \<and>
         (cancelled st \<longrightarrow> cancelled st') \<and>
         (\<not> first_frame st \<longrightarrow> \<not> first_frame st') \<and>
         (cancelled st' \<longrightarrow> cancelled st \<or> should_break F st')"
  using assms
proof (induction ps arbitrary: st)
  case Nil
  then show ?case by auto
next
  case (Cons p ps)
  obtain acts r where p: "p = (acts, r)" by (cases p)
  show ?case
  proof (cases r)
    case (Pull_raises err)
    with Cons.prems p show ?thesis by (auto simp: pull_interrupted_mono)
  next
    case (Yield fid)
    let ?st2 = "on_first_frame (pull acts st)"
    show ?thesis
    proof (cases "should_break F ?st2")
      case True
      with Cons.prems p Yield have "st' = ?st2\<lparr>cancelled := True\<rparr>"
        by (simp add: Let_def)
      with True show ?thesis by (simp add: pull_interrupted_mono)
    next
      case False
      obtain st3 r3 where wl:
        "window_loop F fid (sample_rate (store ?st2 fid) div 100) 0 ?st2 = (st3, r3)"
        by (cases "window_loop F fid (sample_rate (store ?st2 fid) div 100) 0 ?st2") auto
      note wf = window_loop_facts [OF wl]
      show ?thesis
      proof (cases r3)
        case None
        with Cons.prems p Yield False wl have "frame_loop F ps st3 = (st', e)"
          by (simp add: Let_def)
        note rec = this
        have "should_break F st'" if "should_break F st3"
          using frame_loop_keeps_break [OF that rec] .
        with Cons.IH [OF rec] wf show ?thesis by (auto simp: pull_interrupted_mono)
      next
        case (Some err)
        with Cons.prems p Yield False wl have "st' = st3" by (simp add: Let_def)
        with wf show ?thesis by (auto simp: pull_interrupted_mono)
      qed
    qed
  qed
qed

section \<open>The break condition\<close>

definition st1 :: "exp_filter pstate" where
  "st1 = \<lparr>target_volume = 1, vol_filter = \<lparr>alpha = 1 / 1048576, filtered_value = 1\<rparr>,
          interrupted = False, done_fut = False, first_frame = True, cancelled = False,
          store = (\<lambda>_. frame0), sink_env = [], trace = []\<rparr>"

lemmas run_defs = window_loop_unfold should_break_def eps_def pull_def on_first_frame_def
  interrupt_def playing_def

lemma cancelled_update_id: "cancelled st \<Longrightarrow> st\<lparr>cancelled := True\<rparr> = st"
  by (cases st) simp

text \<open>
  C4. The break condition is: interrupted, and the filter's output at most
  \<open>1 / 1000000\<close>. It is tested before each window and before each frame. When it holds
  at the test before a window, the window loop is left with the playout marked as
  cancelled and nothing processed; when it holds at a pull, no sample is processed any
  more (the filter, the frames and the sink are left as they are, nothing is handed to
  the sink) and the next frame the source yields ends the frame loop, marked as
  cancelled. Conversely, whenever either loop marks the playout as cancelled the
  condition holds: the loop does not stop before the filter's output is at most
  \<open>1 / 1000000\<close> on an interrupted handle.
\<close>

theorem break_condition_stops_loop:
  assumes "window_loop F fid ms20 i st = (st', e)"
    and "frame_loop F ps st = (st'', e')"
  shows "(should_break F st \<longleftrightarrow> interrupted st \<and> ffiltered F (vol_filter st) \<le> 1 / 1000000) \<and>
         (should_break F st \<longrightarrow>
            e = None \<and>
            st' = (if i < length (data (store st fid)) then st\<lparr>cancelled := True\<rparr> else st)) \<and>
         (cancelled st' \<and> \<not> cancelled st \<longrightarrow> should_break F st') \<and>
         (should_break F st \<longrightarrow>
            vol_filter st'' = vol_filter st \<and> store st'' = store st \<and>
            sink_env st'' = sink_env st \<and>
            (\<forall>c. Capture c \<notin> set (drop (length (trace st)) (trace st''))) \<and>
            (\<forall>acts g ps'. ps = (acts, Yield g) # ps' \<longrightarrow> cancelled st'' \<and> e' = None)) \<and>
         (cancelled st'' \<and> \<not> cancelled st \<longrightarrow> should_break F st'')"
proof -
  have c1: "should_break F st \<longleftrightarrow> interrupted st \<and> ffiltered F (vol_filter st) \<le> 1 / 1000000"
    by (simp add: should_break_def eps_def)
  have c2: "e = None \<and>
      st' = (if i < length (data (store st fid)) then st\<lparr>cancelled := True\<rparr> else st)"
    if "should_break F st"
  proof (cases "i < length (data (store st fid))")
    case True
    from window_loop_break_now [OF that True, of ms20] assms(1) show ?thesis
      using True by simp
  next
    case False
    with assms(1) show ?thesis by (subst (asm) window_loop_unfold) simp
  qed
  have c3: "should_break F st'" if "cancelled st' \<and> \<not> cancelled st"
    using window_loop_facts [OF assms(1)] that by blast
  have c4: "vol_filter st'' = vol_filter st \<and> store st'' = store st \<and>
            sink_env st'' = sink_env st \<and>
            (\<forall>c. Capture c \<notin> set (drop (length (trace st)) (trace st''))) \<and>
            (\<forall>acts g ps'. ps = (acts, Yield g) # ps' \<longrightarrow> cancelled st'' \<and> e' = None)"
    if "should_break F st"
    using assms(2) unfolding frame_loop_from_break [OF that]
    by (auto split: list.splits pull_outcome.splits)
  have c5: "should_break F st''" if "cancelled st'' \<and> \<not> cancelled st"
    using frame_loop_facts [OF assms(2)] that by blast
  from c1 c2 c3 c4 c5 show ?thesis by blast
qed

theorem break_condition_stops_loop_witness:
  "\<not> should_break exp_filter_ops (on_first_frame (pull [Interrupt] st1)) \<and>
   cancelled (fst (window_loop exp_filter_ops 0 1 0 (on_first_frame (pull [Interrupt] st1)))) \<and>
   should_break exp_filter_ops
     (fst (window_loop exp_filter_ops 0 1 0 (on_first_frame (pull [Interrupt] st1)))) \<and>
   cancelled (fst (frame_loop exp_filter_ops [([Interrupt], Yield 0), ([], Yield 0)] st1)) \<and>
   should_break exp_filter_ops
     (fst (frame_loop exp_filter_ops [([Interrupt], Yield 0), ([], Yield 0)] st1)) \<and>
   vol_filter (fst (frame_loop exp_filter_ops [([], Yield 0)]
       (fst (window_loop exp_filter_ops 0 1 0 (on_first_frame (pull [Interrupt] st1)))))) =
     vol_filter (fst (window_loop exp_filter_ops 0 1 0 (on_first_frame (pull [Interrupt] st1))))"
proof -
  let ?s2 = "on_first_frame (pull [Interrupt] st1)"
  let ?s3 = "fst (window_loop exp_filter_ops 0 1 0 ?s2)"
  let ?ps = "[([Interrupt], Yield 0), ([], Yield 0)]"
  let ?s4 = "fst (frame_loop exp_filter_ops ?ps st1)"
  have h1: "\<not> should_break exp_filter_ops ?s2"
    by (simp add: run_defs ex_defs st1_def)
  have c3: "cancelled ?s3" "\<not> cancelled ?s2"
    by (simp_all add: run_defs ex_defs st1_def)
  have c4: "cancelled ?s4" "\<not> cancelled st1"
    by (simp_all add: run_defs ex_defs st1_def Let_def)
  note a = break_condition_stops_loop
    [of exp_filter_ops 0 1 0 ?s2 ?s3 "snd (window_loop exp_filter_ops 0 1 0 ?s2)"
        "[]" "fst (frame_loop exp_filter_ops [] ?s2)" "snd (frame_loop exp_filter_ops [] ?s2)"]
  note b = break_condition_stops_loop
    [of exp_filter_ops 0 1 0 st1 "fst (window_loop exp_filter_ops 0 1 0 st1)"
        "snd (window_loop exp_filter_ops 0 1 0 st1)"
        ?ps ?s4 "snd (frame_loop exp_filter_ops ?ps st1)"]
  note c = break_condition_stops_loop
    [of exp_filter_ops 0 1 0 ?s3 "fst (window_loop exp_filter_ops 0 1 0 ?s3)"
        "snd (window_loop exp_filter_ops 0 1 0 ?s3)"
        "[([], Yield 0)]" "fst (frame_loop exp_filter_ops [([], Yield 0)] ?s3)"
        "snd (frame_loop exp_filter_ops [([], Yield 0)] ?s3)"]
  from a c3 have sb3: "should_break exp_filter_ops ?s3" by simp
  from b c4 have sb4: "should_break exp_filter_ops ?s4" by simp
  from c sb3 have "vol_filter (fst (frame_loop exp_filter_ops [([], Yield 0)] ?s3)) =
     vol_filter ?s3" by simp
  with h1 c3 c4 sb3 sb4 show ?thesis by blast
qed

text \<open>
  C10. A break in the middle of a frame leaves the window loop only: when the test at
  the head of a frame lets the frame in and the window loop of that frame ends by the
  break, the task pulls from the source once more. If that pull yields a frame the frame
  loop ends there, with the frame unprocessed and the rest of the source untouched; if
  the source is exhausted the loop ends; if the pull raises, the exception leaves the
  loop.
\<close>

theorem mid_frame_break_pulls_once_more:
  assumes "\<not> should_break F (on_first_frame (pull acts st))"
    and "window_loop F fid (sample_rate (store st fid) div 100) 0
           (on_first_frame (pull acts st)) = (st3, None)"
    and "cancelled st3" and "\<not> cancelled st"
  shows "frame_loop F ((acts, Yield fid) # ps) st =
           (case ps of
              [] \<Rightarrow> (st3\<lparr>trace := trace st3 @ [Pull]\<rparr>, None)
            | (acts', Pull_raises err) # ps' \<Rightarrow> (pull acts' st3, Some err)
            | (acts', Yield g) # ps' \<Rightarrow> (pull acts' st3, None))"
proof -
  let ?st2 = "on_first_frame (pull acts st)"
  from window_loop_facts [OF assms(2)] assms(3,4)
  have sb: "should_break F st3" and ff: "\<not> first_frame st3" by simp_all
  have "frame_loop F ((acts, Yield fid) # ps) st = frame_loop F ps st3"
    using assms(1,2) by (simp add: Let_def)
  also have "\<dots> = (case ps of
              [] \<Rightarrow> (st3\<lparr>trace := trace st3 @ [Pull]\<rparr>, None)
            | (acts', Pull_raises err) # ps' \<Rightarrow> (pull acts' st3, Some err)
            | (acts', Yield g) # ps' \<Rightarrow> (pull acts' st3, None))"
    unfolding frame_loop_from_break [OF sb]
    using ff assms(3)
    by (auto split: list.splits pull_outcome.splits
        simp: on_first_frame_id cancelled_update_id)
  finally show ?thesis .
qed

theorem mid_frame_break_pulls_once_more_witness:
  "\<not> should_break exp_filter_ops (on_first_frame (pull [Interrupt] st1)) \<and>
   cancelled (fst (window_loop exp_filter_ops 0 1 0 (on_first_frame (pull [Interrupt] st1)))) \<and>
   frame_loop exp_filter_ops [([Interrupt], Yield 0), ([], Yield 0), ([], Yield 0)] st1 =
     (pull [] (fst (window_loop exp_filter_ops 0 1 0 (on_first_frame (pull [Interrupt] st1)))),
      None) \<and>
   trace (fst (frame_loop exp_filter_ops
       [([Interrupt], Yield 0), ([], Yield 0), ([], Yield 0)] st1)) =
     [Pull, Emit playout_started,
      Capture \<lparr>data = [0], sample_rate = 100, num_channels = 1, samples_per_channel = 1\<rparr>,
      Pull]"
proof -
  let ?s2 = "on_first_frame (pull [Interrupt] st1)"
  let ?s3 = "fst (window_loop exp_filter_ops 0 1 0 ?s2)"
  have ms: "sample_rate (store st1 0) div 100 = 1"
    by (simp add: st1_def frame0_def)
  have h1: "\<not> should_break exp_filter_ops ?s2"
    by (simp add: run_defs ex_defs st1_def)
  have h2: "window_loop exp_filter_ops 0 (sample_rate (store st1 0) div 100) 0 ?s2 = (?s3, None)"
    unfolding ms by (simp add: run_defs ex_defs st1_def)
  have h3: "cancelled ?s3"
    by (simp add: run_defs ex_defs st1_def)
  have h4: "\<not> cancelled st1" by (simp add: st1_def)
  have tr: "trace ?s3 = [Pull, Emit playout_started,
      Capture \<lparr>data = [0], sample_rate = 100, num_channels = 1, samples_per_channel = 1\<rparr>]"
    by (simp add: run_defs ex_defs st1_def)
  from mid_frame_break_pulls_once_more [OF h1 h2 h3 h4, of "[([], Yield 0), ([], Yield 0)]"]
  have run: "frame_loop exp_filter_ops [([Interrupt], Yield 0), ([], Yield 0), ([], Yield 0)] st1 =
     (pull [] ?s3, None)"
    by simp
  from h1 h3 run tr show ?thesis by simp
qed

section \<open>Events and completion\<close>

fun events_of :: "action list \<Rightarrow> event list" where
  "events_of [] = []"
| "events_of (Emit ev # as) = ev # events_of as"
| "events_of (a # as) = events_of as"

text \<open>The hand-off lets the task go on to the frame loop unless the await of the old
  task raises something other than a cancellation.\<close>

definition hand_off_raises :: "(act list \<times> await_outcome) option \<Rightarrow> bool" where
  "hand_off_raises old_task =
     (case old_task of
        Some (acts, Raised err) \<Rightarrow> err \<noteq> CancelledError
      | _ \<Rightarrow> False)"

text \<open>At least one frame is observed: the task reaches the frame loop and the first
  pull yields a frame.\<close>

definition frame_observed ::
  "(act list \<times> await_outcome) option \<Rightarrow> (act list \<times> pull_outcome) list \<Rightarrow> bool" where
  "frame_observed old_task playout_source =
     (\<not> hand_off_raises old_task \<and>
      (case playout_source of (acts, Yield fid) # ps \<Rightarrow> True | _ \<Rightarrow> False))"

lemma events_of_append [simp]: "events_of (xs @ ys) = events_of xs @ events_of ys"
  by (induction xs rule: events_of.induct) simp_all

lemma events_of_captures [simp]: "events_of (map Capture cs) = []"
  by (induction cs) simp_all

lemma window_loop_trace:
  assumes "window_loop F fid ms20 i st = (st', e)"
  shows "\<exists>cs. trace st' = trace st @ map Capture cs"
  using window_loop_chunks [OF assms] by blast

lemma frame_loop_trace:
  assumes "frame_loop F ps st = (st', e)"
  shows "\<exists>tr. trace st' = trace st @ Pull # tr \<and> Set_result \<notin> set tr \<and>
           (if first_frame st \<and> (\<exists>acts fid ps'. ps = (acts, Yield fid) # ps')
            then \<not> first_frame st' \<and> (\<exists>tr'. tr = Emit playout_started # tr' \<and> events_of tr' = [])
            else first_frame st' = first_frame st \<and> events_of tr = [])"
  using assms
proof (induction ps arbitrary: st)
  case Nil
  then show ?case by auto
next
  case (Cons p ps)
  obtain acts r where p: "p = (acts, r)" by (cases p)
  show ?case
  proof (cases r)
    case (Pull_raises err)
    with Cons.prems p show ?thesis by auto
  next
    case (Yield fid)
    let ?st2 = "on_first_frame (pull acts st)"
    let ?started = "if first_frame st then [Emit playout_started] else []"
    have tr2: "trace ?st2 = trace st @ Pull # ?started" by simp
    show ?thesis
    proof (cases "should_break F ?st2")
      case True
      with Cons.prems p Yield have "st' = ?st2\<lparr>cancelled := True\<rparr>"
        by (simp add: Let_def)
      with p Yield show ?thesis by simp
    next
      case False
      obtain st3 r3 where wl:
        "window_loop F fid (sample_rate (store ?st2 fid) div 100) 0 ?st2 = (st3, r3)"
        by (cases "window_loop F fid (sample_rate (store ?st2 fid) div 100) 0 ?st2") auto
      from window_loop_trace [OF wl] obtain cs where
        tr3: "trace st3 = trace ?st2 @ map Capture cs" by blast
      from window_loop_facts [OF wl] have ff3: "\<not> first_frame st3" by simp
      show ?thesis
      proof (cases r3)
        case None
        with Cons.prems p Yield False wl have rec: "frame_loop F ps st3 = (st', e)"
          by (simp add: Let_def)
        from Cons.IH [OF rec] ff3 obtain tr where
          tr: "trace st' = trace st3 @ Pull # tr" "Set_result \<notin> set tr"
          "\<not> first_frame st'" "events_of tr = []"
          by auto
        have "trace st' = trace st @ Pull # (?started @ map Capture cs @ Pull # tr)"
          using tr(1) tr3 tr2 by simp
        moreover have "Set_result \<notin> set (?started @ map Capture cs @ Pull # tr)"
          using tr(2) by auto
        ultimately show ?thesis
          using tr(3,4) p Yield
          by (intro exI [of _ "?started @ map Capture cs @ Pull # tr"]) auto
      next
        case (Some err)
        with Cons.prems p Yield False wl have "st' = st3" by (simp add: Let_def)
        with tr3 tr2 ff3 p Yield show ?thesis
          by (intro exI [of _ "?started @ map Capture cs"]) auto
      qed
    qed
  qed
qed

lemma hand_off_fields:
  "first_frame (fst (hand_off old_task st)) = first_frame st"
  "cancelled (fst (hand_off old_task st)) = cancelled st"
  "trace (fst (hand_off old_task st)) =
     trace st @ (case old_task of None \<Rightarrow> [] | Some x \<Rightarrow> [Cancel_old, Await_old])"
  "(snd (hand_off old_task st) \<noteq> None) = hand_off_raises old_task"
  by (auto simp: hand_off_def hand_off_raises_def Let_def
      split: option.splits prod.splits await_outcome.splits)

lemma finalize_run:
  assumes "finalize (st2, r2) = (st', e)"
  shows "done_fut st' \<and> cancelled st' = cancelled st2 \<and>
         (\<exists>fin. trace st' =
              trace st2 @
              (if first_frame st2 then [] else [Emit (playout_stopped (cancelled st2))]) @ fin \<and>
            (fin = [Set_result] \<and> \<not> done_fut st2 \<and> e = r2 \<or>
             fin = [] \<and> done_fut st2 \<and> e = Some InvalidStateError))"
  using assms by (auto simp: finalize_def Let_def split: if_splits)

lemma playout_task_run:
  assumes run: "playout_task F old_task playout_source st = (st', e)"
  shows "\<exists>mid fin. trace st' =
             trace st @ (case old_task of None \<Rightarrow> [] | Some x \<Rightarrow> [Cancel_old, Await_old])
               @ mid @ fin \<and>
           Set_result \<notin> set mid \<and> done_fut st' \<and>
           (fin = [Set_result] \<or> fin = [] \<and> e = Some InvalidStateError) \<and>
           (if frame_observed old_task playout_source
            then \<exists>tr'. mid = Pull # Emit playout_started # tr' @
                           [Emit (playout_stopped (cancelled st'))] \<and>
                        events_of tr' = []
            else events_of mid = [])"
proof -
  let ?st0 = "st\<lparr>first_frame := True, cancelled := False\<rparr>"
  let ?ho = "case old_task of None \<Rightarrow> [] | Some x \<Rightarrow> [Cancel_old, Await_old]"
  obtain st1 r1 where ho: "hand_off old_task ?st0 = (st1, r1)"
    by (cases "hand_off old_task ?st0") auto
  from hand_off_fields [of old_task ?st0] ho
  have f1: "first_frame st1" "trace st1 = trace st @ ?ho"
    "(r1 \<noteq> None) = hand_off_raises old_task"
    by simp_all
  show ?thesis
  proof (cases r1)
    case (Some err)
    with run ho have "finalize (st1, Some err) = (st', e)"
      by (simp add: playout_task_def Let_def)
    from finalize_run [OF this] f1(1,2) obtain fin where
      "trace st' = trace st @ ?ho @ [] @ fin" "done_fut st'"
      "fin = [Set_result] \<or> fin = [] \<and> e = Some InvalidStateError"
      by auto
    moreover from f1(3) Some have "\<not> frame_observed old_task playout_source"
      by (simp add: frame_observed_def)
    ultimately show ?thesis by (intro exI [of _ "[]"] exI [of _ fin]) simp
  next
    case None
    obtain st2 r2 where fl: "frame_loop F playout_source st1 = (st2, r2)"
      by (cases "frame_loop F playout_source st1") auto
    from f1(3) None have obs: "frame_observed old_task playout_source =
        (\<exists>acts fid ps'. playout_source = (acts, Yield fid) # ps')"
      by (auto simp: frame_observed_def split: list.splits pull_outcome.splits)
    from frame_loop_trace [OF fl] f1(1) obtain tr where
      tr: "trace st2 = trace st1 @ Pull # tr" "Set_result \<notin> set tr"
      "if frame_observed old_task playout_source
       then \<not> first_frame st2 \<and> (\<exists>tr'. tr = Emit playout_started # tr' \<and> events_of tr' = [])
       else first_frame st2 \<and> events_of tr = []"
      unfolding obs by auto
    from run ho None fl have fin: "finalize (st2, r2) = (st', e)"
      by (simp add: playout_task_def Let_def)
    from finalize_run [OF fin] obtain fin where
      fr: "done_fut st'" "cancelled st' = cancelled st2"
      "trace st' = trace st2 @
         (if first_frame st2 then [] else [Emit (playout_stopped (cancelled st2))]) @ fin"
      "fin = [Set_result] \<or> fin = [] \<and> e = Some InvalidStateError"
      by auto
    show ?thesis
    proof (cases "frame_observed old_task playout_source")
      case True
      with tr(3) obtain tr' where tr': "\<not> first_frame st2" "tr = Emit playout_started # tr'"
        "events_of tr' = []" by auto
      with tr(1,2) fr f1(2) True show ?thesis
        by (intro exI [of _ "Pull # Emit playout_started # tr' @
              [Emit (playout_stopped (cancelled st'))]"] exI [of _ fin]) auto
    next
      case False
      with tr(3) have "first_frame st2" "events_of tr = []" by auto
      with tr(1,2) fr f1(2) False show ?thesis
        by (intro exI [of _ "Pull # tr"] exI [of _ fin]) auto
    qed
  qed
qed

lemmas task_defs = playout_task_def hand_off_def finalize_def frame_observed_def
  hand_off_raises_def

text \<open>
  C5. The events of one playout: when at least one frame is observed (the task reaches
  the frame loop and its first pull yields a frame) the task emits exactly
  \<open>playout_started\<close>, right after that first pull, and then exactly one
  \<open>playout_stopped\<close>, which carries the task's \<open>cancelled\<close> flag; when no
  frame is observed it emits no event. The \<open>playout_stopped\<close> event is followed by
  the call of \<open>set_result\<close>, which is recorded unless it raises.
\<close>

theorem playout_events:
  assumes "playout_task F old_task playout_source st = (st', e)"
  shows "events_of (drop (length (trace st)) (trace st')) =
           (if frame_observed old_task playout_source
            then [playout_started, playout_stopped (cancelled st')] else []) \<and>
         (frame_observed old_task playout_source \<longrightarrow>
            (\<exists>tr' fin. drop (length (trace st)) (trace st') =
                 (case old_task of None \<Rightarrow> [] | Some x \<Rightarrow> [Cancel_old, Await_old]) @
                 Pull # Emit playout_started # tr' @
                 Emit (playout_stopped (cancelled st')) # fin \<and>
               events_of tr' = [] \<and>
               (fin = [Set_result] \<or> fin = [] \<and> e = Some InvalidStateError)))"
proof -
  let ?ho = "case old_task of None \<Rightarrow> [] | Some x \<Rightarrow> [Cancel_old, Await_old]"
  from playout_task_run [OF assms] obtain mid fin where
    mid: "trace st' = trace st @ ?ho @ mid @ fin"
    "fin = [Set_result] \<or> fin = [] \<and> e = Some InvalidStateError"
    "if frame_observed old_task playout_source
     then \<exists>tr'. mid = Pull # Emit playout_started # tr' @
                    [Emit (playout_stopped (cancelled st'))] \<and> events_of tr' = []
     else events_of mid = []"
    by blast
  have ho: "events_of ?ho = []" by (simp split: option.splits)
  have fin: "events_of fin = []" using mid(2) by auto
  have d: "drop (length (trace st)) (trace st') = ?ho @ mid @ fin"
    using mid(1) by simp
  show ?thesis
  proof (cases "frame_observed old_task playout_source")
    case True
    with mid(3) obtain tr' where "mid = Pull # Emit playout_started # tr' @
        [Emit (playout_stopped (cancelled st'))]" "events_of tr' = []" by auto
    with d ho fin mid(2) True show ?thesis by auto
  next
    case False
    with mid(3) d ho fin show ?thesis by simp
  qed
qed

theorem playout_events_witness:
  "events_of (trace (fst (playout_task exp_filter_ops None
       [([Interrupt], Yield 0), ([], Yield 0)] st1))) =
     [playout_started, playout_stopped True] \<and>
   events_of (trace (fst (playout_task exp_filter_ops None [] st1))) = []"
proof -
  let ?src = "[([Interrupt], Yield 0), ([], Yield 0)]"
  let ?r = "playout_task exp_filter_ops None ?src st1"
  have tr: "trace st1 = []" by (simp add: st1_def)
  have obs: "frame_observed None ?src" "\<not> frame_observed None []"
    by (simp_all add: task_defs)
  have c: "cancelled (fst ?r)"
    by (simp add: task_defs run_defs ex_defs st1_def Let_def)
  from playout_events [where F = exp_filter_ops and old_task = None and
        playout_source = ?src and st = st1, OF prod.collapse [symmetric]]
    playout_events [where F = exp_filter_ops and old_task = None and
        playout_source = "[]" and st = st1, OF prod.collapse [symmetric]]
  show ?thesis
    using obs c tr by simp
qed

text \<open>
  C2. A playout whose handle is awaited by a task that is cancelled while the playout
  task waits for its first frame: the cancellation of the awaiter has made the future
  done, so \<open>set_result\<close> in the \<^verbatim>\<open>finally\<close> block raises. The task ends with
  \<open>InvalidStateError\<close>, its trace has no \<open>Set_result\<close>, and the call of
  \<^verbatim>\<open>interrupt()\<close> made after the cancellation has no effect on the handle.
\<close>

theorem completion_after_cancelled_awaiter:
  "playout_task exp_filter_ops None [([Cancel_awaiter, Interrupt], Yield 0)] st0 =
     (st0\<lparr>vol_filter := \<lparr>alpha = 1 / 2, filtered_value = 5 / 8\<rparr>,
          done_fut := True, first_frame := False,
          store := (\<lambda>_. frame0)(0 := frame0\<lparr>data := [0, 20479]\<rparr>),
          trace :=
            [Pull, Emit playout_started,
             Capture \<lparr>data = [0], sample_rate = 100, num_channels = 1,
                      samples_per_channel = 1\<rparr>,
             Capture \<lparr>data = [20479], sample_rate = 100, num_channels = 1,
                      samples_per_channel = 1\<rparr>,
             Pull, Emit (playout_stopped False)]\<rparr>,
      Some InvalidStateError)"
  by (simp add: task_defs run_defs ex_defs)

text \<open>
  Whatever ends the task, its handle is done afterwards and \<open>set_result\<close> is called
  at most once, as the last action; it is missing only when the future was done before
  the \<^verbatim>\<open>finally\<close> block, and the task then ends with \<open>InvalidStateError\<close>.
\<close>

lemma handle_done_after_task:
  assumes "playout_task F old_task playout_source st = (st', e)"
  shows "done_fut st' \<and>
         (\<exists>tr fin. trace st' = trace st @ tr @ fin \<and> Set_result \<notin> set tr \<and>
            (fin = [Set_result] \<or> fin = [] \<and> e = Some InvalidStateError))"
proof -
  from playout_task_run [OF assms] obtain mid fin where
    mid: "trace st' =
             trace st @ (case old_task of None \<Rightarrow> [] | Some x \<Rightarrow> [Cancel_old, Await_old])
               @ mid @ fin"
    "Set_result \<notin> set mid" "done_fut st'"
    "fin = [Set_result] \<or> fin = [] \<and> e = Some InvalidStateError"
    by blast
  then show ?thesis
    by (intro conjI exI [of _ "(case old_task of None \<Rightarrow> [] | Some x \<Rightarrow> [Cancel_old, Await_old]) @ mid"]
        exI [of _ fin])
      (auto split: option.splits)
qed

section \<open>The received frame\<close>

lemma process_window_captured_store:
  assumes pw: "process_window F fid i rem st = (st', e)"
    and tr: "trace st' = trace st @ [Capture c]"
  shows "data (store st' fid) =
           take i (data (store st fid)) @ data c @ drop (i + rem) (data (store st fid))"
    and "g \<noteq> fid \<Longrightarrow> store st' g = store st g"
    and "length (data c) = min rem (length (data (store st fid)) - i)"
proof -
  have "data (store st' fid) =
           take i (data (store st fid)) @ data c @ drop (i + rem) (data (store st fid)) \<and>
        (g \<noteq> fid \<longrightarrow> store st' g = store st g) \<and>
        length (data c) = min rem (length (data (store st fid)) - i)"
  proof (cases rule: process_window_cases [of rem st fid i F])
    case zero
    with pw tr show ?thesis by simp
  next
    case (store_error flt out err)
    with pw have "st' = write_window fid i rem out (st\<lparr>vol_filter := flt\<rparr>)" by simp
    then have "trace st' = trace st" by simp
    with tr show ?thesis by simp
  next
    case (captured flt out)
    let ?c = "\<lparr>data = out, sample_rate = sample_rate (store st fid),
            num_channels = num_channels (store st fid), samples_per_channel = rem\<rparr>"
    let ?st1 = "write_window fid i rem out (st\<lparr>vol_filter := flt\<rparr>)"
    from captured pw have st': "st' = fst (capture_frame ?c ?st1)"
      by (metis fst_conv)
    then have "trace st' = trace st @ [Capture ?c]"
      by (simp add: capture_frame_fields)
    with tr have c: "c = ?c" by simp
    from st' have "store st' = store ?st1" by (simp add: capture_frame_fields)
    with c captured(3) show ?thesis by simp
  qed
  then show "data (store st' fid) =
           take i (data (store st fid)) @ data c @ drop (i + rem) (data (store st fid))"
    and "g \<noteq> fid \<Longrightarrow> store st' g = store st g"
    and "length (data c) = min rem (length (data (store st fid)) - i)"
    by simp_all
qed

text \<open>
  C9. The task hands new frames to the sink, and it writes into the frame it received:
  the window is a view of the frame's buffer, so after a window is processed and handed
  to the sink the buffer of the received frame holds the scaled samples of the chunk at
  the positions of the window. The rest of the buffer and the other frames are left as
  they are.
\<close>

theorem window_written_in_place:
  assumes "process_window F fid i rem st = (st', e)"
    and "trace st' = trace st @ [Capture c]"
  shows "data (store st' fid) =
           take i (data (store st fid)) @ data c @ drop (i + rem) (data (store st fid)) \<and>
         take (length (data c)) (drop i (data (store st' fid))) = data c \<and>
         length (data (store st' fid)) = length (data (store st fid)) \<and>
         (\<forall>g. g \<noteq> fid \<longrightarrow> store st' g = store st g)"
proof -
  note s = process_window_captured_store [OF assms]
  from process_window_facts(3) [OF assms(1)]
  have len: "length (data (store st' fid)) = length (data (store st fid))" .
  have i: "i \<le> length (data (store st fid))"
  proof (rule ccontr)
    assume "\<not> i \<le> length (data (store st fid))"
    then have "process_window F fid i rem st = (st, Some ZeroDivisionError)"
      by (intro process_window_zero) simp
    with assms show False by simp
  qed
  then have "take (length (data c)) (drop i (data (store st' fid))) = data c"
    unfolding s(1) by simp
  with s(1,2) len show ?thesis by blast
qed

theorem window_written_in_place_witness:
  "data (store (fst (process_window exp_filter_ops 0 0 1 st0)) 0) =
     [] @ [0] @ drop 1 (data (store st0 0)) \<and>
   store (fst (process_window exp_filter_ops 0 0 1 st0)) 1 = store st0 1"
proof -
  let ?c = "\<lparr>data = [0], sample_rate = 100, num_channels = 1, samples_per_channel = 1\<rparr>"
  have h1: "process_window exp_filter_ops 0 0 1 st0 =
      (fst (process_window exp_filter_ops 0 0 1 st0), None)"
    by (simp add: ex_defs)
  have h2: "trace (fst (process_window exp_filter_ops 0 0 1 st0)) = trace st0 @ [Capture ?c]"
    by (simp add: ex_defs)
  from window_written_in_place [OF h1 h2] show ?thesis by simp
qed

text \<open>
  The frame \<open>[1, 32767]\<close> at 100 Hz, played with the target volume 1/2 by a filter
  with \<open>alpha = 1/2\<close>: when the task is done the frame it received holds
  \<open>[0, 20479]\<close>.
\<close>

theorem received_frame_counterexample:
  "data (store st0 0) = [1, 32767] \<and>
   data (store (fst (playout_task exp_filter_ops None [([], Yield 0)] st0)) 0) = [0, 20479]"
  by (simp add: task_defs run_defs ex_defs)

section \<open>The windows of the frames of a playout\<close>

text \<open>
  The trace of a task read frame by frame: each \<open>Pull\<close> opens a group, and the group
  holds the chunk frames handed to the sink until the next \<open>Pull\<close>.
\<close>

fun chunks_after :: "action list \<Rightarrow> audio_frame list" where
  "chunks_after [] = []"
| "chunks_after (Pull # as) = []"
| "chunks_after (Capture c # as) = c # chunks_after as"
| "chunks_after (a # as) = chunks_after as"

fun chunks_by_pull :: "action list \<Rightarrow> audio_frame list list" where
  "chunks_by_pull [] = []"
| "chunks_by_pull (Pull # as) = chunks_after as # chunks_by_pull as"
| "chunks_by_pull (a # as) = chunks_by_pull as"

text \<open>
  The chunk frames \<open>cs\<close> are consecutive windows of the frame: window \<open>k\<close> starts at
  \<open>k * ms20\<close> and has \<open>ms20 = sample_rate div 100\<close> samples or what is left of the
  buffer, so only the last window is shorter; none is empty; each carries the sample
  rate and the channel count of the frame and its own length as
  \<open>samples_per_channel\<close>.
\<close>

definition windows_of :: "audio_frame \<Rightarrow> audio_frame list \<Rightarrow> bool" where
  "windows_of frame cs =
     ((\<forall>k<length cs.
         length (data (cs ! k)) =
           min (sample_rate frame div 100)
               (length (data frame) - k * (sample_rate frame div 100)) \<and>
         0 < length (data (cs ! k)) \<and>
         samples_per_channel (cs ! k) = length (data (cs ! k)) \<and>
         sample_rate (cs ! k) = sample_rate frame \<and>
         num_channels (cs ! k) = num_channels frame) \<and>
      (\<forall>k. Suc k < length cs \<longrightarrow> length (data (cs ! k)) = sample_rate frame div 100))"

text \<open>Group \<open>j\<close> belongs to pull \<open>j\<close> of the source: the windows of the frame it
  yields; nothing when the pull raises or the source is exhausted.\<close>

definition group_ok ::
  "(nat \<Rightarrow> audio_frame) \<Rightarrow> (act list \<times> pull_outcome) list \<Rightarrow> nat \<Rightarrow> audio_frame list \<Rightarrow> bool"
  where
  "group_ok frames ps j cs =
     (if j < length ps
      then (case snd (ps ! j) of
              Yield fid \<Rightarrow> windows_of (frames fid) cs
            | Pull_raises err \<Rightarrow> cs = [])
      else cs = [])"

definition same_shape :: "(nat \<Rightarrow> audio_frame) \<Rightarrow> (nat \<Rightarrow> audio_frame) \<Rightarrow> bool" where
  "same_shape s s' =
     (\<forall>g. sample_rate (s' g) = sample_rate (s g) \<and> num_channels (s' g) = num_channels (s g) \<and>
          length (data (s' g)) = length (data (s g)))"

lemma same_shape_refl [simp]: "same_shape s s"
  by (simp add: same_shape_def)

lemma same_shape_trans: "same_shape a b \<Longrightarrow> same_shape b c \<Longrightarrow> same_shape a c"
  by (simp add: same_shape_def)

lemma windows_of_shape:
  "same_shape s s' \<Longrightarrow> windows_of (s' g) cs = windows_of (s g) cs"
  by (simp add: same_shape_def windows_of_def)

lemma group_ok_shape:
  "same_shape s s' \<Longrightarrow> group_ok s' ps j cs = group_ok s ps j cs"
  by (simp add: group_ok_def windows_of_shape split: pull_outcome.splits)

lemma window_loop_shape:
  assumes "window_loop F fid ms20 i st = (st', e)"
  shows "same_shape (store st) (store st')"
  using assms
proof (induction rule: window_loop_induct)
  case (finished i st)
  then show ?case by simp
next
  case (break i st)
  then show ?case by simp
next
  case (error i st st1 err)
  from process_window_facts(1-3) [OF error(3)] show ?case by (simp add: same_shape_def)
next
  case (step i st st1 st' e)
  from process_window_facts(1-3) [OF step(3)] have "same_shape (store st) (store st1)"
    by (simp add: same_shape_def)
  from this step.IH show ?case by (rule same_shape_trans)
qed

lemma window_loop_windows:
  assumes "window_loop F fid (sample_rate (store st fid) div 100) 0 st = (st', e)"
  shows "\<exists>cs. trace st' = trace st @ map Capture cs \<and> windows_of (store st fid) cs \<and>
           (e = None \<and> \<not> cancelled st' \<longrightarrow>
              sum_list (map (\<lambda>c. length (data c)) cs) = length (data (store st fid)))"
  using window_loop_split [OF assms] unfolding windows_of_def by blast

definition quiet :: "action \<Rightarrow> bool" where
  "quiet a = (a \<noteq> Pull \<and> (\<forall>c. a \<noteq> Capture c))"

lemma chunks_after_quiet:
  "\<forall>a\<in>set ys. quiet a \<Longrightarrow> chunks_after (xs @ ys) = chunks_after xs"
proof (induction xs rule: chunks_after.induct)
  case 1
  then show ?case
  proof (induction ys)
    case Nil
    then show ?case by simp
  next
    case (Cons a ys)
    then show ?case by (cases a) (simp_all add: quiet_def)
  qed
qed simp_all

lemma chunks_by_pull_quiet:
  "\<forall>a\<in>set ys. quiet a \<Longrightarrow> chunks_by_pull (xs @ ys) = chunks_by_pull xs"
proof (induction xs rule: chunks_by_pull.induct)
  case 1
  then show ?case
  proof (induction ys)
    case Nil
    then show ?case by simp
  next
    case (Cons a ys)
    then show ?case by (cases a) (simp_all add: quiet_def)
  qed
qed (simp_all add: chunks_after_quiet)

lemma chunks_quiet_prefix:
  "\<forall>a\<in>set xs. quiet a \<Longrightarrow> chunks_by_pull (xs @ ys) = chunks_by_pull ys"
  "\<forall>a\<in>set xs. quiet a \<Longrightarrow> chunks_after (xs @ ys) = chunks_after ys"
proof (induction xs)
  case Nil
  {
    case 1 show ?case by simp
  next
    case 2 show ?case by simp
  }
next
  case (Cons a xs)
  {
    case 1 then show ?case using Cons.IH(1) by (cases a) (simp_all add: quiet_def)
  next
    case 2 then show ?case using Cons.IH(2) by (cases a) (simp_all add: quiet_def)
  }
qed

lemma chunks_after_captures [simp]:
  "chunks_after (map Capture cs @ xs) = cs @ chunks_after xs"
  by (induction cs) simp_all

lemma chunks_by_pull_captures [simp]:
  "chunks_by_pull (map Capture cs @ xs) = chunks_by_pull xs"
  by (induction cs) simp_all
lemma frame_loop_groups:
  assumes "frame_loop F ps st = (st', e)"
  shows "\<exists>tr. trace st' = trace st @ Pull # tr \<and>
           same_shape (store st) (store st') \<and>
           length (chunks_by_pull (Pull # tr)) \<le> Suc (length ps) \<and>
           (\<forall>j<length (chunks_by_pull (Pull # tr)).
              group_ok (store st) ps j (chunks_by_pull (Pull # tr) ! j)) \<and>
           (e = None \<and> \<not> cancelled st' \<longrightarrow>
              length (chunks_by_pull (Pull # tr)) = Suc (length ps) \<and>
              (\<forall>j<length ps. \<forall>fid. snd (ps ! j) = Yield fid \<longrightarrow>
                 sum_list (map (\<lambda>c. length (data c)) (chunks_by_pull (Pull # tr) ! j)) =
                   length (data (store st fid))))"
  using assms
proof (induction ps arbitrary: st)
  case Nil
  then show ?case
    by (intro exI [of _ "[]"]) (auto simp: group_ok_def)
next
  case (Cons p ps)
  obtain acts r where p: "p = (acts, r)" by (cases p)
  show ?case
  proof (cases r)
    case (Pull_raises err)
    with Cons.prems p have "st' = pull acts st" "e = Some err" by simp_all
    with p Pull_raises show ?thesis
      by (intro exI [of _ "[]"]) (auto simp: group_ok_def)
  next
    case (Yield fid)
    let ?st2 = "on_first_frame (pull acts st)"
    let ?started = "if first_frame st then [Emit playout_started] else []"
    have tr2: "trace ?st2 = trace st @ Pull # ?started" by simp
    have q: "\<forall>a\<in>set ?started. quiet a" by (simp add: quiet_def)
    show ?thesis
    proof (cases "should_break F ?st2")
      case True
      with Cons.prems p Yield have st': "st' = ?st2\<lparr>cancelled := True\<rparr>" "e = None"
        by (simp_all add: Let_def)
      have g: "chunks_by_pull (Pull # ?started) = [[]]" by simp
      show ?thesis
        unfolding st'
        by (intro exI [of _ ?started]) (simp add: p Yield group_ok_def windows_of_def)
    next
      case False
      obtain st3 r3 where wl:
        "window_loop F fid (sample_rate (store ?st2 fid) div 100) 0 ?st2 = (st3, r3)"
        by (cases "window_loop F fid (sample_rate (store ?st2 fid) div 100) 0 ?st2") auto
      from window_loop_windows [OF wl] obtain cs where
        cs: "trace st3 = trace ?st2 @ map Capture cs" "windows_of (store st fid) cs"
        "r3 = None \<and> \<not> cancelled st3 \<longrightarrow>
           sum_list (map (\<lambda>c. length (data c)) cs) = length (data (store st fid))"
        by auto
      from window_loop_shape [OF wl] have sh3: "same_shape (store st) (store st3)" by simp
      show ?thesis
      proof (cases r3)
        case (Some err)
        with Cons.prems p Yield False wl have st': "st' = st3" "e = Some err"
          by (simp_all add: Let_def)
        have g: "chunks_by_pull (Pull # ?started @ map Capture cs) = [cs]"
          using chunks_quiet_prefix [OF q, of "map Capture cs"]
            chunks_after_captures [of cs "[]"] chunks_by_pull_captures [of cs "[]"]
          by simp
        have "trace st' = trace st @ Pull # (?started @ map Capture cs)"
          unfolding st' cs(1) tr2 by simp
        moreover have "\<forall>j<length (chunks_by_pull (Pull # ?started @ map Capture cs)).
            group_ok (store st) (p # ps) j
              (chunks_by_pull (Pull # ?started @ map Capture cs) ! j)"
          unfolding g using cs(2) by (simp add: group_ok_def p Yield)
        ultimately show ?thesis
          using sh3 st' g by (intro exI [of _ "?started @ map Capture cs"]) simp
      next
        case None
        with Cons.prems p Yield False wl have rec: "frame_loop F ps st3 = (st', e)"
          by (simp add: Let_def)
        from Cons.IH [OF rec] obtain tr where
          tr: "trace st' = trace st3 @ Pull # tr"
          "same_shape (store st3) (store st')"
          "length (chunks_by_pull (Pull # tr)) \<le> Suc (length ps)"
          "\<forall>j<length (chunks_by_pull (Pull # tr)).
              group_ok (store st3) ps j (chunks_by_pull (Pull # tr) ! j)"
          "e = None \<and> \<not> cancelled st' \<longrightarrow>
              length (chunks_by_pull (Pull # tr)) = Suc (length ps) \<and>
              (\<forall>j<length ps. \<forall>fid. snd (ps ! j) = Yield fid \<longrightarrow>
                 sum_list (map (\<lambda>c. length (data c)) (chunks_by_pull (Pull # tr) ! j)) =
                   length (data (store st3 fid)))"
          by blast
        let ?tr = "?started @ map Capture cs @ Pull # tr"
        have g: "chunks_by_pull (Pull # ?tr) = cs # chunks_by_pull (Pull # tr)"
          using chunks_quiet_prefix [OF q, of "map Capture cs @ Pull # tr"]
          by simp
        have t: "trace st' = trace st @ Pull # ?tr"
          unfolding tr(1) cs(1) tr2 by simp
        have sh: "same_shape (store st) (store st')"
          using sh3 tr(2) by (rule same_shape_trans)
        have ok: "group_ok (store st) (p # ps) j (chunks_by_pull (Pull # ?tr) ! j)"
          if "j < length (chunks_by_pull (Pull # ?tr))" for j
        proof (cases j)
          case 0
          with cs(2) show ?thesis unfolding g by (simp add: group_ok_def p Yield)
        next
          case (Suc i)
          with that have "i < length (chunks_by_pull (Pull # tr))" unfolding g by simp
          with tr(4) have "group_ok (store st3) ps i (chunks_by_pull (Pull # tr) ! i)" by blast
          then have "group_ok (store st) ps i (chunks_by_pull (Pull # tr) ! i)"
            by (simp add: group_ok_shape [OF sh3])
          then show ?thesis
            unfolding g Suc by (simp add: group_ok_def)
        qed
        from frame_loop_facts [OF rec] have c3: "cancelled st3 \<longrightarrow> cancelled st'" by simp
        have full: "length (chunks_by_pull (Pull # ?tr)) = Suc (length (p # ps)) \<and>
              (\<forall>j<length (p # ps). \<forall>g. snd ((p # ps) ! j) = Yield g \<longrightarrow>
                 sum_list (map (\<lambda>c. length (data c)) (chunks_by_pull (Pull # ?tr) ! j)) =
                   length (data (store st g)))"
          if "e = None \<and> \<not> cancelled st'"
        proof -
          from that tr(5) have l: "length (chunks_by_pull (Pull # tr)) = Suc (length ps)"
            and s: "\<forall>j<length ps. \<forall>g. snd (ps ! j) = Yield g \<longrightarrow>
                 sum_list (map (\<lambda>c. length (data c)) (chunks_by_pull (Pull # tr) ! j)) =
                   length (data (store st3 g))"
            by blast+
          from that c3 None cs(3) have s0:
            "sum_list (map (\<lambda>c. length (data c)) cs) = length (data (store st fid))"
            by blast
          have len3: "length (data (store st3 g)) = length (data (store st g))" for g
            using sh3 by (simp add: same_shape_def)
          have "sum_list (map (\<lambda>c. length (data c)) (chunks_by_pull (Pull # ?tr) ! j)) =
                   length (data (store st g))"
            if "j < length (p # ps)" "snd ((p # ps) ! j) = Yield g" for j g
          proof (cases j)
            case 0
            with that(2) p Yield have "g = fid" by simp
            with s0 0 show ?thesis unfolding g by simp
          next
            case (Suc i)
            with that s have "sum_list (map (\<lambda>c. length (data c))
                (chunks_by_pull (Pull # tr) ! i)) = length (data (store st3 g))"
              by simp
            then show ?thesis unfolding g Suc len3 by simp
          qed
          with l show ?thesis unfolding g by simp
        qed
        have len: "length (chunks_by_pull (Pull # ?tr)) \<le> Suc (length (p # ps))"
          unfolding g using tr(3) by simp
        from t sh len ok full show ?thesis
          by (intro exI [of _ ?tr]) blast
      qed
    qed
  qed
qed
lemma hand_off_store [simp]: "store (fst (hand_off old_task st)) = store st"
  by (simp add: hand_off_def Let_def split: option.splits prod.splits await_outcome.splits)

text \<open>
  C8. For every frame of a playout: the chunk frames the task hands to the sink after
  pulling the frame are consecutive windows of \<open>sample_rate div 100\<close> samples of the
  frame's buffer, only the last of them may be shorter; each carries the sample rate
  and the channel count of the frame and has \<open>samples_per_channel\<close> equal to the length
  of the window. A pull that raises and the pull that finds the source exhausted are
  followed by no chunk. When the task ends without an exception and without the break,
  every frame of the source has been pulled and the windows of each frame cover its
  buffer.
\<close>

theorem frames_split_into_windows:
  assumes "playout_task F old_task playout_source st = (st', e)"
  shows "length (chunks_by_pull (drop (length (trace st)) (trace st')))
           \<le> Suc (length playout_source) \<and>
         (\<forall>j<length (chunks_by_pull (drop (length (trace st)) (trace st'))).
            group_ok (store st) playout_source j
              (chunks_by_pull (drop (length (trace st)) (trace st')) ! j)) \<and>
         (e = None \<and> \<not> cancelled st' \<longrightarrow>
            length (chunks_by_pull (drop (length (trace st)) (trace st')))
              = Suc (length playout_source) \<and>
            (\<forall>j<length playout_source. \<forall>fid. snd (playout_source ! j) = Yield fid \<longrightarrow>
               sum_list (map (\<lambda>c. length (data c))
                 (chunks_by_pull (drop (length (trace st)) (trace st')) ! j)) =
                 length (data (store st fid))))"
proof -
  let ?st0 = "st\<lparr>first_frame := True, cancelled := False\<rparr>"
  let ?ho = "case old_task of None \<Rightarrow> [] | Some x \<Rightarrow> [Cancel_old, Await_old]"
  let ?new = "drop (length (trace st)) (trace st')"
  obtain st1 r1 where ho: "hand_off old_task ?st0 = (st1, r1)"
    by (cases "hand_off old_task ?st0") auto
  from hand_off_fields [of old_task ?st0] hand_off_store [of old_task ?st0] ho
  have f1: "first_frame st1" "trace st1 = trace st @ ?ho" "store st1 = store st"
    by simp_all
  have qho: "\<forall>a\<in>set ?ho. quiet a" by (auto simp: quiet_def split: option.splits)
  show ?thesis
  proof (cases r1)
    case (Some err)
    with assms ho have fin: "finalize (st1, Some err) = (st', e)"
      by (simp add: playout_task_def Let_def)
    from finalize_run [OF fin] f1(1,2) obtain fin where
      t: "trace st' = trace st @ ?ho @ fin"
      and f: "fin = [Set_result] \<and> e = Some err \<or> fin = [] \<and> e = Some InvalidStateError"
      by auto
    from f have qf: "\<forall>a\<in>set fin. quiet a" by (auto simp: quiet_def)
    have "chunks_by_pull ?new = []"
      unfolding t using chunks_quiet_prefix(1) [OF qho, of fin]
        chunks_quiet_prefix(1) [OF qf, of "[]"] by simp
    with f show ?thesis by auto
  next
    case None
    obtain st2 r2 where fl: "frame_loop F playout_source st1 = (st2, r2)"
      by (cases "frame_loop F playout_source st1") auto
    from assms ho None fl have fin: "finalize (st2, r2) = (st', e)"
      by (simp add: playout_task_def Let_def)
    from frame_loop_groups [OF fl] obtain tr where
      tr: "trace st2 = trace st1 @ Pull # tr"
      "length (chunks_by_pull (Pull # tr)) \<le> Suc (length playout_source)"
      "\<forall>j<length (chunks_by_pull (Pull # tr)).
          group_ok (store st1) playout_source j (chunks_by_pull (Pull # tr) ! j)"
      "r2 = None \<and> \<not> cancelled st2 \<longrightarrow>
          length (chunks_by_pull (Pull # tr)) = Suc (length playout_source) \<and>
          (\<forall>j<length playout_source. \<forall>fid. snd (playout_source ! j) = Yield fid \<longrightarrow>
             sum_list (map (\<lambda>c. length (data c)) (chunks_by_pull (Pull # tr) ! j)) =
               length (data (store st1 fid)))"
      by blast
    from finalize_run [OF fin] obtain tail where
      fr: "cancelled st' = cancelled st2" "trace st' = trace st2 @ tail"
      "\<forall>a\<in>set tail. quiet a" "e = None \<longrightarrow> r2 = None"
      by (auto simp: quiet_def)
    have "?new = ?ho @ (Pull # tr) @ tail"
      unfolding fr(2) tr(1) f1(2) by simp
    then have g: "chunks_by_pull ?new = chunks_by_pull (Pull # tr)"
      using chunks_quiet_prefix(1) [OF qho, of "(Pull # tr) @ tail"]
        chunks_by_pull_quiet [OF fr(3), of "Pull # tr"] by simp
    from tr(2-4) fr(1,4) show ?thesis
      unfolding g f1(3) by blast
  qed
qed

theorem frames_split_into_windows_witness:
  "chunks_by_pull (trace (fst (playout_task exp_filter_ops None [([], Yield 0)] st0))) =
     [[\<lparr>data = [0], sample_rate = 100, num_channels = 1, samples_per_channel = 1\<rparr>,
       \<lparr>data = [20479], sample_rate = 100, num_channels = 1, samples_per_channel = 1\<rparr>],
      []] \<and>
   windows_of (store st0 0)
     (chunks_by_pull (trace (fst (playout_task exp_filter_ops None [([], Yield 0)] st0))) ! 0) \<and>
   sum_list (map (\<lambda>c. length (data c))
     (chunks_by_pull (trace (fst (playout_task exp_filter_ops None [([], Yield 0)] st0))) ! 0)) =
     length (data (store st0 0)) \<and>
   sample_rate (store st0 0) div 100 = 1 \<and> length (data (store st0 0)) = 2"
proof -
  let ?src = "[([], Yield 0)] :: (act list \<times> pull_outcome) list"
  let ?run = "playout_task exp_filter_ops None ?src st0"
  have tr: "trace st0 = []" by (simp add: st0_def)
  have e: "snd ?run = None" "\<not> cancelled (fst ?run)"
    by (simp_all add: task_defs run_defs ex_defs)
  have g: "chunks_by_pull (trace (fst ?run)) =
     [[\<lparr>data = [0], sample_rate = 100, num_channels = 1, samples_per_channel = 1\<rparr>,
       \<lparr>data = [20479], sample_rate = 100, num_channels = 1, samples_per_channel = 1\<rparr>],
      []]"
    by (simp add: task_defs run_defs ex_defs)
  have m: "sample_rate (store st0 0) div 100 = 1" "length (data (store st0 0)) = 2"
    by (simp_all add: st0_def frame0_def)
  note t = frames_split_into_windows [where F = exp_filter_ops and old_task = None and
      playout_source = ?src and st = st0, OF prod.collapse [symmetric], unfolded tr]
  have z: "0 < length (chunks_by_pull (trace (fst ?run)))" unfolding g by simp
  from t have "\<forall>j<length (chunks_by_pull (trace (fst ?run))).
      group_ok (store st0) ?src j (chunks_by_pull (trace (fst ?run)) ! j)"
    by (simp only: drop_0 list.size) blast
  from this [rule_format, OF z]
  have w: "windows_of (store st0 0) (chunks_by_pull (trace (fst ?run)) ! 0)"
    by (simp add: group_ok_def)
  from t e have s: "sum_list (map (\<lambda>c. length (data c))
     (chunks_by_pull (trace (fst ?run)) ! 0)) = length (data (store st0 0))"
    by simp
  from g w s m show ?thesis by blast
qed

end
